theory Spec2Isabelle
  imports Complex_Main
begin

section \<open>JavaScript strings and the built-ins the parse step calls\<close>

text \<open>
  A JavaScript string is a sequence of UTF-16 code units. It is modelled as the list of
  their numeric values, so that the white space beyond ASCII that \<open>trim\<close> and the regular
  expression class \<open>\s\<close> recognise can be written down. \<open>js\<close> turns an Isabelle
  string literal into such a list.
\<close>

type_synonym jsstring = "nat list"

definition js :: "string \<Rightarrow> jsstring" where
  "js s = map of_char s"

text \<open>
  ECMAScript WhiteSpace and LineTerminator: the code units that \<open>String.prototype.trim\<close>
  removes and that \<open>\s\<close> matches.
\<close>

definition is_ws :: "nat \<Rightarrow> bool" where
  "is_ws c = (c = 9 \<or> c = 10 \<or> c = 11 \<or> c = 12 \<or> c = 13 \<or> c = 32 \<or> c = 160
     \<or> c = 5760 \<or> (8192 \<le> c \<and> c \<le> 8202) \<or> c = 8232 \<or> c = 8233 \<or> c = 8239
     \<or> c = 8287 \<or> c = 12288 \<or> c = 65279)"

definition is_digit :: "nat \<Rightarrow> bool" where
  "is_digit c = (48 \<le> c \<and> c \<le> 57)"

definition trim :: "jsstring \<Rightarrow> jsstring" where
  "trim s = rev (dropWhile is_ws (rev (dropWhile is_ws s)))"

primrec starts_with :: "'a list \<Rightarrow> 'a list \<Rightarrow> bool" where
  "starts_with [] s = True"
| "starts_with (p # ps) s = (case s of [] \<Rightarrow> False | c # cs \<Rightarrow> p = c \<and> starts_with ps cs)"

text \<open>\<open>index_of sep s\<close> is \<open>s.indexOf(sep)\<close>: the first position at which \<open>sep\<close> occurs.\<close>

fun index_of :: "'a list \<Rightarrow> 'a list \<Rightarrow> nat option" where
  "index_of sep [] = (if sep = [] then Some 0 else None)"
| "index_of sep (c # cs) =
     (if starts_with sep (c # cs) then Some 0 else map_option Suc (index_of sep cs))"

lemma starts_with_length: "starts_with p t \<Longrightarrow> length p \<le> length t"
  by (induction p arbitrary: t) (auto split: list.splits)

lemma index_of_bound: "index_of sep s = Some i \<Longrightarrow> i + length sep \<le> length s"
proof (induction s arbitrary: i)
  case Nil
  then show ?case by (simp split: if_splits)
next
  case (Cons c cs)
  show ?case
  proof (cases "starts_with sep (c # cs)")
    case True
    from starts_with_length [OF True] True Cons.prems show ?thesis by simp
  next
    case False
    with Cons show ?thesis by auto
  qed
qed

text \<open>
  \<open>split_on sep s\<close> is \<open>s.split(sep)\<close> for a string separator: the pieces between the
  successive occurrences of \<open>sep\<close>, each search starting where the previous occurrence
  ended; with the empty separator, the code units one by one.
\<close>

function split_on :: "'a list \<Rightarrow> 'a list \<Rightarrow> 'a list list" where
  "split_on sep s =
     (if sep = [] then map (\<lambda>c. [c]) s
      else (case index_of sep s of
              None \<Rightarrow> [s]
            | Some i \<Rightarrow> take i s # split_on sep (drop (i + length sep) s)))"
  by pat_completeness auto
termination
proof (relation "measure (\<lambda>(sep, s). length s)")
  show "wf (measure (\<lambda>(sep, s). length s))" by simp
next
  fix sep s :: "'a list" and i
  assume "sep \<noteq> []" "index_of sep s = Some i"
  then have "i + length sep \<le> length s" and "0 < length sep"
    by (auto dest: index_of_bound)
  then have "length s - (i + length sep) < length s"
    by arith
  then show "((sep, drop (i + length sep) s), (sep, s)) \<in> measure (\<lambda>(sep, s). length s)"
    by simp
qed

declare split_on.simps [simp del]

text \<open>
  \<open>strip_fences s\<close> is \<open>s.replace(/```json|```/g, "")\<close>: scanning from the left, every
  match of the fence followed by \<open>json\<close>, or else of the bare fence, is deleted, and the
  scan resumes after the match. The pattern has no \<open>i\<close> flag, so \<open>json\<close> is matched in
  lower case only. The backquote is code unit 96.
\<close>

definition fence :: jsstring where
  "fence = [96, 96, 96]"

function strip_fences :: "jsstring \<Rightarrow> jsstring" where
  "strip_fences [] = []"
| "strip_fences (c # cs) =
     (if starts_with (fence @ js ''json'') (c # cs) then strip_fences (drop 7 (c # cs))
      else if starts_with fence (c # cs) then strip_fences (drop 3 (c # cs))
      else c # strip_fences cs)"
  by pat_completeness auto
termination
  by (relation "measure length") auto

text \<open>
  The fallback scan \<open>fullText.match(/Calories:?\s*(\d+)/i)\<close>. Without the \<open>u\<close> flag,
  ignoring case compares code units after upper-casing, and no code unit above 127 is
  identified with an ASCII letter, so the letters of \<open>calories\<close> match exactly their
  two ASCII forms. Every quantifier of the pattern is greedy and no alternative can
  succeed after the greedy one has failed (a colon is neither white space nor a digit,
  white space is not a digit), so a match attempt at a position is deterministic.
  \<open>calories_match_at\<close> is the attempt at the start of its argument and gives the text
  of group 1; \<open>calories_match\<close> tries the positions from the left, as \<open>match\<close> does.
\<close>

definition lower :: "nat \<Rightarrow> nat" where
  "lower c = (if 65 \<le> c \<and> c \<le> 90 then c + 32 else c)"

definition calories_match_at :: "jsstring \<Rightarrow> jsstring option" where
  "calories_match_at s =
     (if starts_with (js ''calories'') (map lower s) then
        (let r = drop 8 s;
             r1 = (case r of [] \<Rightarrow> r | c # cs \<Rightarrow> if c = 58 then cs else r);
             r2 = dropWhile is_ws r1;
             ds = takeWhile is_digit r2
         in if ds = [] then None else Some ds)
      else None)"

fun calories_match :: "jsstring \<Rightarrow> jsstring option" where
  "calories_match [] = calories_match_at []"
| "calories_match (c # cs) =
     (case calories_match_at (c # cs) of
        Some ds \<Rightarrow> Some ds
      | None \<Rightarrow> calories_match cs)"

text \<open>
  JavaScript numbers are IEEE binary64 values. The model carries the exact rational
  value a numeral denotes and leaves out the rounding to binary64; rounding is monotone
  and keeps zero, so it changes neither the sign of a number nor whether it is zero.
  \<open>parseInt\<close> is only ever applied to the text of group 1, a non-empty string of
  decimal digits, where it gives the number the digits denote in base ten.
\<close>

definition digits_val :: "jsstring \<Rightarrow> nat" where
  "digits_val ds = foldl (\<lambda>a d. 10 * a + (d - 48)) 0 ds"

definition parseInt :: "jsstring \<Rightarrow> rat" where
  "parseInt ds = of_nat (digits_val ds)"

section \<open>JSON values and \<open>JSON.parse\<close>\<close>

text \<open>
  The values \<open>JSON.parse\<close> can return, and \<open>undefined\<close>, which reading a missing
  property gives. An object is the list of its own properties in insertion order.
\<close>

datatype jsvalue =
    JUndefined
  | JNull
  | JBool bool
  | JNum rat
  | JStr jsstring
  | JArr "jsvalue list"
  | JObj "(jsstring \<times> jsvalue) list"

text \<open>Defining a property: an existing key keeps its place and takes the new value.\<close>

fun obj_set :: "jsstring \<Rightarrow> jsvalue \<Rightarrow> (jsstring \<times> jsvalue) list \<Rightarrow> (jsstring \<times> jsvalue) list" where
  "obj_set k v [] = [(k, v)]"
| "obj_set k v ((k', v') # kvs) = (if k' = k then (k, v) # kvs else (k', v') # obj_set k v kvs)"

datatype TypeError = TypeError

text \<open>
  Reading a property \<open>v.k\<close>: a TypeError on \<open>null\<close> and \<open>undefined\<close>, the own property
  of an object, and \<open>undefined\<close> where there is none. (The keys read in this program,
  \<open>calories\<close>, \<open>protein\<close>, \<open>fat\<close>, \<open>carbs\<close> and \<open>web\<close>, are not properties of any
  built-in prototype, so primitives and arrays give \<open>undefined\<close>.)
\<close>

fun get_prop :: "jsvalue \<Rightarrow> jsstring \<Rightarrow> TypeError + jsvalue" where
  "get_prop JUndefined k = Inl TypeError"
| "get_prop JNull k = Inl TypeError"
| "get_prop (JObj kvs) k = (case map_of kvs k of None \<Rightarrow> Inr JUndefined | Some v \<Rightarrow> Inr v)"
| "get_prop v k = Inr JUndefined"

subsection \<open>The lexical grammar\<close>

datatype token =
    TLBrace | TRBrace | TLBrack | TRBrack | TColon | TComma
  | TTrue | TFalse | TNull
  | TNum rat
  | TStr jsstring

text \<open>JSON white space is tab, line feed, carriage return and space only.\<close>

definition is_json_ws :: "nat \<Rightarrow> bool" where
  "is_json_ws c = (c = 9 \<or> c = 10 \<or> c = 13 \<or> c = 32)"

definition hexval :: "nat \<Rightarrow> nat option" where
  "hexval c =
     (if 48 \<le> c \<and> c \<le> 57 then Some (c - 48)
      else if 65 \<le> c \<and> c \<le> 70 then Some (c - 55)
      else if 97 \<le> c \<and> c \<le> 102 then Some (c - 87)
      else None)"

text \<open>The single-character escapes: quote, backslash, slash, b, f, n, r, t.\<close>

definition unescape :: "nat \<Rightarrow> nat option" where
  "unescape e =
     (if e = 34 then Some 34 else if e = 92 then Some 92 else if e = 47 then Some 47
      else if e = 98 then Some 8 else if e = 102 then Some 12 else if e = 110 then Some 10
      else if e = 114 then Some 13 else if e = 116 then Some 9 else None)"

text \<open>
  \<open>lex_string\<close> reads a string after its opening quote (34): up to the closing quote,
  with no raw control character, a backslash (92) starting an escape, \<open>u\<close> (117) one of
  four hexadecimal digits. It gives the string's value and the rest of the input.
\<close>

fun lex_string :: "jsstring \<Rightarrow> (jsstring \<times> jsstring) option" where
  "lex_string [] = None"
| "lex_string (c # cs) =
     (if c = 34 then Some ([], cs)
      else if c < 32 then None
      else if c = 92 then
        (case cs of
           [] \<Rightarrow> None
         | e # r \<Rightarrow>
             if e = 117 then
               (case r of
                  h1 # h2 # h3 # h4 # r' \<Rightarrow>
                    (case (hexval h1, hexval h2, hexval h3, hexval h4) of
                       (Some a, Some b, Some c', Some d) \<Rightarrow>
                         (case lex_string r' of
                            None \<Rightarrow> None
                          | Some (v, t) \<Rightarrow> Some ((((a * 16 + b) * 16 + c') * 16 + d) # v, t))
                     | _ \<Rightarrow> None)
                | _ \<Rightarrow> None)
             else
               (case unescape e of
                  None \<Rightarrow> None
                | Some u \<Rightarrow>
                    (case lex_string r of None \<Rightarrow> None | Some (v, t) \<Rightarrow> Some (u # v, t))))
      else (case lex_string cs of None \<Rightarrow> None | Some (v, t) \<Rightarrow> Some (c # v, t)))"

text \<open>
  \<open>lex_number\<close> reads a number: an optional minus (45), an integer part that is \<open>0\<close> or
  starts with a non-zero digit, an optional fraction after a point (46), an optional
  exponent after \<open>e\<close> or \<open>E\<close> with an optional sign. (An integer part \<open>0\<close> followed by a
  digit is refused here: it would lex as two adjacent number tokens, which no JSON text
  contains.)
\<close>

definition pow10 :: "int \<Rightarrow> rat" where
  "pow10 e = (if 0 \<le> e then 10 ^ nat e else 1 / 10 ^ nat (- e))"

definition lex_exponent :: "jsstring \<Rightarrow> (int \<times> jsstring) option" where
  "lex_exponent s =
     (case s of
        [] \<Rightarrow> Some (0, s)
      | e # r \<Rightarrow>
          if e = 101 \<or> e = 69 then
            (let (neg, r1) = (case r of [] \<Rightarrow> (False, r)
                              | g # r' \<Rightarrow> if g = 45 then (True, r') else if g = 43 then (False, r') else (False, r));
                 ds = takeWhile is_digit r1
             in if ds = [] then None
                else Some ((if neg then - int (digits_val ds) else int (digits_val ds)), dropWhile is_digit r1))
          else Some (0, s))"

definition lex_fraction :: "jsstring \<Rightarrow> (jsstring \<times> jsstring) option" where
  "lex_fraction s =
     (case s of
        [] \<Rightarrow> Some ([], s)
      | p # r \<Rightarrow>
          if p = 46 then
            (let ds = takeWhile is_digit r
             in if ds = [] then None else Some (ds, dropWhile is_digit r))
          else Some ([], s))"

definition lex_number :: "jsstring \<Rightarrow> (rat \<times> jsstring) option" where
  "lex_number s =
     (let (neg, s1) = (case s of [] \<Rightarrow> (False, s) | m # r \<Rightarrow> if m = 45 then (True, r) else (False, s));
          ip = takeWhile is_digit s1
      in if ip = [] \<or> (hd ip = 48 \<and> tl ip \<noteq> []) then None
         else
           (case lex_fraction (dropWhile is_digit s1) of
              None \<Rightarrow> None
            | Some (fp, s2) \<Rightarrow>
                (case lex_exponent s2 of
                   None \<Rightarrow> None
                 | Some (ex, s3) \<Rightarrow>
                     Some ((if neg then - 1 else 1) * of_nat (digits_val (ip @ fp))
                             * pow10 (ex - int (length fp)), s3))))"

lemma lex_string_length: "lex_string s = Some (v, r) \<Longrightarrow> length r < length s"
proof (induction s arbitrary: v r rule: length_induct)
  case (1 s)
  then have IH: "\<And>t v r. length t < length s \<Longrightarrow> lex_string t = Some (v, r) \<Longrightarrow> length r < length t"
    by blast
  from "1.prems" show ?case
    by (cases s) (auto split: if_splits list.splits option.splits dest!: IH [rotated])
qed

lemma lex_fraction_length: "lex_fraction s = Some (fp, r) \<Longrightarrow> length r \<le> length s"
  by (auto simp: lex_fraction_def Let_def length_dropWhile_le le_SucI split: list.splits if_splits)

lemma lex_exponent_length: "lex_exponent s = Some (ex, r) \<Longrightarrow> length r \<le> length s"
  by (auto simp: lex_exponent_def Let_def length_dropWhile_le le_SucI
      split: list.splits if_splits prod.splits
      intro: order_trans [OF length_dropWhile_le])

lemma dropWhile_shorter: "takeWhile P s \<noteq> [] \<Longrightarrow> length (dropWhile P s) < length s"
  by (cases s) (auto simp: length_dropWhile_le less_Suc_eq_le split: if_splits)

lemma lex_number_length:
  assumes "lex_number s = Some (x, r)"
  shows "length r < length s"
proof -
  obtain neg s1 where ns: "(case s of [] \<Rightarrow> (False, s) | m # r \<Rightarrow> if m = 45 then (True, r) else (False, s)) = (neg, s1)"
    by fastforce
  then have s1: "length s1 \<le> length s"
    by (auto split: list.splits if_splits)
  from assms ns obtain fp s2 ex where
    ip: "takeWhile is_digit s1 \<noteq> []" and
    fr: "lex_fraction (dropWhile is_digit s1) = Some (fp, s2)" and
    ex: "lex_exponent s2 = Some (ex, r)"
    by (auto simp: lex_number_def Let_def split: if_splits option.splits)
  from dropWhile_shorter [OF ip] lex_fraction_length [OF fr] lex_exponent_length [OF ex] s1
  show ?thesis by arith
qed

text \<open>
  \<open>lex\<close> cuts a text into tokens: white space between tokens is skipped, the six
  punctuators are 123 125 91 93 58 44, a quote starts a string, a minus or a digit a
  number, and the three literal names are read letter for letter.
\<close>

function lex :: "jsstring \<Rightarrow> token list option" where
  "lex [] = Some []"
| "lex (c # cs) =
     (if is_json_ws c then lex cs
      else if c = 123 then map_option ((#) TLBrace) (lex cs)
      else if c = 125 then map_option ((#) TRBrace) (lex cs)
      else if c = 91 then map_option ((#) TLBrack) (lex cs)
      else if c = 93 then map_option ((#) TRBrack) (lex cs)
      else if c = 58 then map_option ((#) TColon) (lex cs)
      else if c = 44 then map_option ((#) TComma) (lex cs)
      else if c = 34 then
        (case lex_string cs of
           None \<Rightarrow> None
         | Some (v, r) \<Rightarrow> map_option ((#) (TStr v)) (lex r))
      else if c = 45 \<or> is_digit c then
        (case lex_number (c # cs) of
           None \<Rightarrow> None
         | Some (x, r) \<Rightarrow> map_option ((#) (TNum x)) (lex r))
      else if starts_with (js ''true'') (c # cs) then map_option ((#) TTrue) (lex (drop 4 (c # cs)))
      else if starts_with (js ''false'') (c # cs) then map_option ((#) TFalse) (lex (drop 5 (c # cs)))
      else if starts_with (js ''null'') (c # cs) then map_option ((#) TNull) (lex (drop 4 (c # cs)))
      else None)"
  by pat_completeness auto
termination
  by (relation "measure length")
    (auto dest: lex_string_length lex_number_length simp del: lex_string.simps)

subsection \<open>The syntactic grammar\<close>

text \<open>
  A recursive descent over the tokens, each function giving the value read and the
  tokens left. The recursion is on a step budget; \<open>OutOfFuel\<close> is kept apart from
  \<open>SyntaxError\<close> so that the budget \<open>JSON_parse\<close> gives can be shown never to run out.
\<close>

datatype 'a outcome = Ok 'a | SyntaxError | OutOfFuel

fun parse_value :: "nat \<Rightarrow> token list \<Rightarrow> (jsvalue \<times> token list) outcome"
  and parse_elems :: "nat \<Rightarrow> token list \<Rightarrow> jsvalue list \<Rightarrow> (jsvalue \<times> token list) outcome"
  and parse_members :: "nat \<Rightarrow> token list \<Rightarrow> (jsstring \<times> jsvalue) list \<Rightarrow> (jsvalue \<times> token list) outcome"
where
  "parse_value 0 ts = OutOfFuel"
| "parse_value (Suc n) [] = SyntaxError"
| "parse_value (Suc n) (t # ts) =
     (case t of
        TNull \<Rightarrow> Ok (JNull, ts)
      | TTrue \<Rightarrow> Ok (JBool True, ts)
      | TFalse \<Rightarrow> Ok (JBool False, ts)
      | TNum x \<Rightarrow> Ok (JNum x, ts)
      | TStr s \<Rightarrow> Ok (JStr s, ts)
      | TLBrack \<Rightarrow>
          (case ts of
             TRBrack # r \<Rightarrow> Ok (JArr [], r)
           | _ \<Rightarrow> parse_elems n ts [])
      | TLBrace \<Rightarrow>
          (case ts of
             TRBrace # r \<Rightarrow> Ok (JObj [], r)
           | _ \<Rightarrow> parse_members n ts [])
      | _ \<Rightarrow> SyntaxError)"
| "parse_elems 0 ts acc = OutOfFuel"
| "parse_elems (Suc n) ts acc =
     (case parse_value n ts of
        Ok (v, r) \<Rightarrow>
          (case r of
             TComma # r' \<Rightarrow> parse_elems n r' (acc @ [v])
           | TRBrack # r' \<Rightarrow> Ok (JArr (acc @ [v]), r')
           | _ \<Rightarrow> SyntaxError)
      | SyntaxError \<Rightarrow> SyntaxError
      | OutOfFuel \<Rightarrow> OutOfFuel)"
| "parse_members 0 ts acc = OutOfFuel"
| "parse_members (Suc n) ts acc =
     (case ts of
        TStr k # TColon # ts' \<Rightarrow>
          (case parse_value n ts' of
             Ok (v, r) \<Rightarrow>
               (case r of
                  TComma # r' \<Rightarrow> parse_members n r' (obj_set k v acc)
                | TRBrace # r' \<Rightarrow> Ok (JObj (obj_set k v acc), r')
                | _ \<Rightarrow> SyntaxError)
           | SyntaxError \<Rightarrow> SyntaxError
           | OutOfFuel \<Rightarrow> OutOfFuel)
      | _ \<Rightarrow> SyntaxError)"

text \<open>
  \<open>JSON.parse\<close>: the text is one value and nothing else; \<open>None\<close> is the SyntaxError it
  throws.
\<close>

definition JSON_parse :: "jsstring \<Rightarrow> jsvalue option" where
  "JSON_parse s =
     (case lex s of
        None \<Rightarrow> None
      | Some ts \<Rightarrow>
          (case parse_value (2 * length ts + 1) ts of
             Ok (v, []) \<Rightarrow> Some v
           | _ \<Rightarrow> None))"

section \<open>The parse step (Step C of the analysis)\<close>

definition sentinel :: jsstring where
  "sentinel = js ''---JSON---''"

text \<open>The object literal \<open>{ calories: 0, protein: 0, fat: 0, carbs: 0 }\<close>.\<close>

definition default_macros :: jsvalue where
  "default_macros =
     JObj [(js ''calories'', JNum 0), (js ''protein'', JNum 0), (js ''fat'', JNum 0), (js ''carbs'', JNum 0)]"

text \<open>Assigning a property of an object (\<open>macros.calories = ...\<close>).\<close>

fun set_prop :: "jsvalue \<Rightarrow> jsstring \<Rightarrow> jsvalue \<Rightarrow> jsvalue" where
  "set_prop (JObj kvs) k v = JObj (obj_set k v kvs)"
| "set_prop w k v = w"

record parse_result =
  summary_of :: jsstring
  macros_of :: jsvalue
  logged :: "jsstring list"

text \<open>
  The block under the comment \<open>// Parse output\<close> of \<open>handleAnalyze\<close>. \<open>macros\<close> is
  declared as \<open>Macros\<close> but takes whatever \<open>JSON.parse\<close> returns; when \<open>JSON.parse\<close>
  throws, the assignment has not happened, \<open>macros\<close> is still the default object, and
  the handler logs and scans the whole response for a calorie count.
\<close>

definition parse_output :: "jsstring \<Rightarrow> parse_result" where
  "parse_output fullText =
     (let jsonSplit = split_on sentinel fullText in
      if length jsonSplit > 1 then
        (case JSON_parse (trim (strip_fences (jsonSplit ! 1))) of
           Some v \<Rightarrow> \<lparr>summary_of = trim (jsonSplit ! 0), macros_of = v, logged = []\<rparr>
         | None \<Rightarrow>
             \<lparr>summary_of = trim (jsonSplit ! 0),
              macros_of =
                (case calories_match fullText of
                   Some ds \<Rightarrow> set_prop default_macros (js ''calories'') (JNum (parseInt ds))
                 | None \<Rightarrow> default_macros),
              logged = [js ''JSON Parse Error'']\<rparr>)
      else \<lparr>summary_of = fullText, macros_of = default_macros, logged = []\<rparr>)"

text \<open>The same block of \<open>handleTextAnalyze\<close>: its handler of the parse error only logs.\<close>

definition parse_output_text :: "jsstring \<Rightarrow> parse_result" where
  "parse_output_text fullText =
     (let jsonSplit = split_on sentinel fullText in
      if length jsonSplit > 1 then
        (case JSON_parse (trim (strip_fences (jsonSplit ! 1))) of
           Some v \<Rightarrow> \<lparr>summary_of = trim (jsonSplit ! 0), macros_of = v, logged = []\<rparr>
         | None \<Rightarrow>
             \<lparr>summary_of = trim (jsonSplit ! 0), macros_of = default_macros,
              logged = [js ''JSON Parse Error'']\<rparr>)
      else \<lparr>summary_of = fullText, macros_of = default_macros, logged = []\<rparr>)"

section \<open>Records, the AI service and the remote store\<close>

record AnalysisResult =
  id_r :: "nat option"
  name :: jsstring
  summary :: jsstring
  macros :: jsvalue
  imageUrl :: "jsstring option"
  timestamp :: "nat option"
  sources :: "jsvalue list option"

text \<open>
  Of a response of the AI service the handlers read
  \<open>candidates?.[0]?.content?.parts?.[0]?.text\<close> and
  \<open>candidates?.[0]?.groundingMetadata?.groundingChunks\<close>; each may be missing.
\<close>

record ai_response =
  first_text :: "jsstring option"
  groundingChunks :: "jsvalue list option"

datatype ai_part = InlineData jsstring "jsstring option" | TextPart jsstring

record ai_request =
  model :: jsstring
  contents :: "ai_part list"
  googleSearch :: bool

definition MODEL_NAME :: jsstring where
  "MODEL_NAME = js ''gemini-2.5-flash-preview-09-2025''"

record jsfile =
  file_name :: jsstring
  file_type :: jsstring

text \<open>
  The object passed to \<open>insert\<close>, and a row of the table \<open>history\<close>, which has the
  same seven columns and the two the store assigns.
\<close>

record insert_row =
  row_name :: jsstring
  row_summary :: jsstring
  image_url :: jsstring
  calories :: jsvalue
  protein :: jsvalue
  fat :: jsvalue
  carbs :: jsvalue

record history_row = insert_row +
  row_id :: nat
  created_at :: nat

record select_query =
  from_table :: jsstring
  order_by :: jsstring
  ascending :: bool
  limit_n :: nat

text \<open>
  Modelled from the spec: the remote record store, which is a service outside the
  repository (spec section 6: a table of rows, insert-one, and select-recent ordered by
  creation time descending with a limit). A successful insert adds the row with the
  columns it was given, an id and a creation time; a select orders the rows by
  \<open>created_at\<close> and returns at most \<open>limit_n\<close> of them.
\<close>

definition stored_as :: "nat \<Rightarrow> nat \<Rightarrow> insert_row \<Rightarrow> history_row" where
  "stored_as i t r =
     \<lparr>row_name = row_name r, row_summary = row_summary r, image_url = image_url r,
      calories = calories r, protein = protein r, fat = fat r, carbs = carbs r,
      row_id = i, created_at = t\<rparr>"

definition run_select :: "select_query \<Rightarrow> history_row list \<Rightarrow> history_row list" where
  "run_select q rows =
     take (limit_n q)
       (if ascending q then sort_key created_at rows else rev (sort_key created_at rows))"

text \<open>
  What the outside world answers during one run of a handler: the file reader, the AI
  service (\<open>Inl\<close> is a rejected call), the store's \<open>error\<close> for the insert and for the
  select, and the id and time the store gives a new row.
\<close>

record env =
  readAsDataURL :: "jsfile \<Rightarrow> jsstring option"
  generateContent :: "ai_request \<Rightarrow> jsstring + ai_response"
  insert_error :: "insert_row \<Rightarrow> jsstring option"
  select_error :: "jsstring option"
  new_id :: nat
  now :: nat

datatype exn = FileReadError | ServiceError jsstring | JsTypeError

text \<open>
  What a handler does to the outside: the requests to the AI service and to the store,
  \<open>console.error\<close> (with its label; empty where only the error object is passed) and
  \<open>alert\<close>.
\<close>

datatype event =
    AiRequest ai_request
  | StoreInsert insert_row
  | StoreSelect select_query
  | ConsoleError jsstring
  | Alert jsstring

record ui_state =
  file_s :: "jsfile option"
  imagePreview :: "jsstring option"
  searchText :: jsstring
  loading :: bool
  loadingStep :: jsstring
  result :: "AnalysisResult option"
  history :: "AnalysisResult list"

record world =
  ui :: ui_state
  table :: "history_row list"
  trace :: "event list"

definition emit :: "event \<Rightarrow> world \<Rightarrow> world" where
  "emit e w = w\<lparr>trace := trace w @ [e]\<rparr>"

definition emit_all :: "event list \<Rightarrow> world \<Rightarrow> world" where
  "emit_all es w = w\<lparr>trace := trace w @ es\<rparr>"

section \<open>\<open>loadHistory\<close>\<close>

definition history_query :: select_query where
  "history_query =
     \<lparr>from_table = js ''history'', order_by = js ''created_at'', ascending = False, limit_n = 20\<rparr>"

text \<open>The function mapped over \<open>data\<close>: a flat row to the nested record.\<close>

definition from_row :: "history_row \<Rightarrow> AnalysisResult" where
  "from_row item =
     \<lparr>id_r = Some (row_id item),
      name = row_name item,
      summary = row_summary item,
      macros = JObj [(js ''calories'', calories item), (js ''protein'', protein item),
                     (js ''fat'', fat item), (js ''carbs'', carbs item)],
      imageUrl = Some (image_url item),
      timestamp = Some (created_at item),
      sources = None\<rparr>"

definition loadHistory :: "env \<Rightarrow> world \<Rightarrow> world" where
  "loadHistory e w =
     (let w1 = emit (StoreSelect history_query) w in
      case select_error e of
        Some err \<Rightarrow> emit (ConsoleError (js ''Supabase Load Error:'')) w1
      | None \<Rightarrow>
          w1\<lparr>ui := (ui w1)\<lparr>history := map from_row (run_select history_query (table w1))\<rparr>\<rparr>)"

section \<open>\<open>handleAnalyze\<close>\<close>

text \<open>
  \<open>fileToGenerativePart\<close>: the data URL the reader gives, split at commas, element 1
  (\<open>undefined\<close> when there is no comma); the promise is rejected when the reader fails.
\<close>

definition fileToGenerativePart :: "env \<Rightarrow> jsfile \<Rightarrow> exn + jsstring option" where
  "fileToGenerativePart e f =
     (case readAsDataURL e f of
        None \<Rightarrow> Inl FileReadError
      | Some base64String \<Rightarrow>
          (let parts = split_on (js '','') base64String in
           Inr (if length parts > 1 then Some (parts ! 1) else None)))"

definition identify_request :: "jsfile \<Rightarrow> jsstring option \<Rightarrow> ai_request" where
  "identify_request f base64Data =
     \<lparr>model = MODEL_NAME,
      contents =
        [InlineData (file_type f) base64Data,
         TextPart (js ''Identify the main food item in this image. Return ONLY the common name of the food.'')],
      googleSearch = False\<rparr>"

text \<open>\<open>text?.trim() || "Unknown food"\<close>: the empty string is falsy.\<close>

definition food_name_of :: "ai_response \<Rightarrow> jsstring" where
  "food_name_of r =
     (case first_text r of
        None \<Rightarrow> js ''Unknown food''
      | Some t \<Rightarrow> if trim t = [] then js ''Unknown food'' else trim t)"

text \<open>\<open>text || ""\<close>.\<close>

definition full_text_of :: "ai_response \<Rightarrow> jsstring" where
  "full_text_of r = (case first_text r of None \<Rightarrow> [] | Some t \<Rightarrow> t)"

definition analysis_prompt :: "jsstring \<Rightarrow> jsstring" where
  \<open>analysis_prompt foodName =
     js ''\<newline>'' @
     js ''        Research the nutritional value of "'' @
     foodName @
     js ''" per standard serving.\<newline>'' @
     js ''        \<newline>'' @
     js ''        1. Write a 50-75 word engaging nutritional summary about it.\<newline>'' @
     js ''        2. Provide specific numerical values for Calories (kcal), Protein (g), Fat (g), and Carbs (g).\<newline>'' @
     js ''        \<newline>'' @
     js ''        Format the output as follows:\<newline>'' @
     js ''        [Summary Text]\<newline>'' @
     js ''        \<newline>'' @
     js ''        ---JSON---\<newline>'' @
     js ''        {\<newline>'' @
     js ''          "calories": number,\<newline>'' @
     js ''          "protein": number,\<newline>'' @
     js ''          "fat": number,\<newline>'' @
     js ''          "carbs": number\<newline>'' @
     js ''        }\<newline>'' @
     js ''      ''\<close>
definition analysis_request :: "jsstring \<Rightarrow> ai_request" where
  "analysis_request prompt = \<lparr>model = MODEL_NAME, contents = [TextPart prompt], googleSearch = True\<rparr>"

text \<open>\<open>Boolean(v)\<close>; the model has no NaN, the one other falsy number.\<close>

fun truthy :: "jsvalue \<Rightarrow> bool" where
  "truthy JUndefined = False"
| "truthy JNull = False"
| "truthy (JBool b) = b"
| "truthy (JNum x) = (x \<noteq> 0)"
| "truthy (JStr s) = (s \<noteq> [])"
| "truthy (JArr xs) = True"
| "truthy (JObj kvs) = True"

text \<open>\<open>groundingChunks.map((c) => c.web)\<close>, which throws on a chunk that is \<open>null\<close>.\<close>

fun map_web :: "jsvalue list \<Rightarrow> TypeError + jsvalue list" where
  "map_web [] = Inr []"
| "map_web (c # cs) =
     (case get_prop c (js ''web'') of
        Inl err \<Rightarrow> Inl err
      | Inr w \<Rightarrow> (case map_web cs of Inl err \<Rightarrow> Inl err | Inr ws \<Rightarrow> Inr (w # ws)))"

definition newAnalysis :: "jsstring \<Rightarrow> jsstring \<Rightarrow> jsvalue \<Rightarrow> jsstring \<Rightarrow> jsvalue list \<Rightarrow> AnalysisResult" where
  "newAnalysis foodName summ mac preview srcs =
     \<lparr>id_r = None, name = foodName, summary = summ, macros = mac, imageUrl = Some preview,
      timestamp = None, sources = Some srcs\<rparr>"

text \<open>
  The object literal passed to \<open>insert\<close>. Its fields are evaluated in order, and
  reading \<open>macros.calories\<close> throws when \<open>macros\<close> is \<open>null\<close>.
\<close>

definition history_insert :: "jsstring \<Rightarrow> jsstring \<Rightarrow> jsstring \<Rightarrow> jsvalue \<Rightarrow> TypeError + insert_row" where
  "history_insert foodName summ preview mac =
     (case get_prop mac (js ''calories'') of
        Inl err \<Rightarrow> Inl err
      | Inr c \<Rightarrow>
         (case get_prop mac (js ''protein'') of
            Inl err \<Rightarrow> Inl err
          | Inr p \<Rightarrow>
             (case get_prop mac (js ''fat'') of
                Inl err \<Rightarrow> Inl err
              | Inr f \<Rightarrow>
                 (case get_prop mac (js ''carbs'') of
                    Inl err \<Rightarrow> Inl err
                  | Inr cb \<Rightarrow>
                      Inr \<lparr>row_name = foodName, row_summary = summ, image_url = preview,
                           calories = c, protein = p, fat = f, carbs = cb\<rparr>))))"

text \<open>
  Step 3 of \<open>handleAnalyze\<close>: the insert, and then either the log of its error or
  \<open>loadHistory\<close>.
\<close>

definition persist :: "env \<Rightarrow> insert_row \<Rightarrow> world \<Rightarrow> world" where
  "persist e r w =
     (let w1 = emit (StoreInsert r) w in
      case insert_error e r of
        Some saveError \<Rightarrow> emit (ConsoleError (js ''Supabase Save Error:'')) w1
      | None \<Rightarrow> loadHistory e (w1\<lparr>table := table w1 @ [stored_as (new_id e) (now e) r]\<rparr>))"

definition setLoadingStep :: "jsstring \<Rightarrow> world \<Rightarrow> world" where
  "setLoadingStep s w = w\<lparr>ui := (ui w)\<lparr>loadingStep := s\<rparr>\<rparr>"

definition setLoading :: "bool \<Rightarrow> world \<Rightarrow> world" where
  "setLoading b w = w\<lparr>ui := (ui w)\<lparr>loading := b\<rparr>\<rparr>"

definition setResult :: "AnalysisResult \<Rightarrow> world \<Rightarrow> world" where
  "setResult r w = w\<lparr>ui := (ui w)\<lparr>result := Some r\<rparr>\<rparr>"

text \<open>
  The \<open>try\<close> block, in the three pieces its exceptions cut it into. Each gives the
  exception that left it, if one did, and the world as it was at that moment.
  \<open>analyze_finish\<close> runs from the parse of the response to the end of Step 3.
\<close>

definition analyze_finish :: "env \<Rightarrow> jsstring \<Rightarrow> jsstring \<Rightarrow> ai_response \<Rightarrow> world \<Rightarrow> exn option \<times> world" where
  "analyze_finish e foodName preview analysisResponse w =
     (let fullText = full_text_of analysisResponse;
          chunks = (case groundingChunks analysisResponse of None \<Rightarrow> [] | Some cs \<Rightarrow> cs);
          parsed = parse_output fullText;
          w4 = emit_all (map ConsoleError (logged parsed)) w
      in case map_web chunks of
           Inl err \<Rightarrow> (Some JsTypeError, w4)
         | Inr webs \<Rightarrow>
            (let w5 = setResult (newAnalysis foodName (summary_of parsed) (macros_of parsed) preview
                                  (filter truthy webs)) w4
             in case history_insert foodName (summary_of parsed) preview (macros_of parsed) of
                  Inl err \<Rightarrow> (Some JsTypeError, w5)
                | Inr r \<Rightarrow> (None, persist e r w5)))"

definition analyze_research :: "env \<Rightarrow> jsstring \<Rightarrow> ai_response \<Rightarrow> world \<Rightarrow> exn option \<times> world" where
  "analyze_research e preview identifyResponse w =
     (let foodName = food_name_of identifyResponse;
          w2 = setLoadingStep (js ''Analyzing '' @ foodName @ js ''...'') w;
          w3 = emit (AiRequest (analysis_request (analysis_prompt foodName))) w2
      in case generateContent e (analysis_request (analysis_prompt foodName)) of
           Inl msg \<Rightarrow> (Some (ServiceError msg), w3)
         | Inr analysisResponse \<Rightarrow> analyze_finish e foodName preview analysisResponse w3)"

definition handleAnalyze_try :: "env \<Rightarrow> jsfile \<Rightarrow> jsstring \<Rightarrow> world \<Rightarrow> exn option \<times> world" where
  "handleAnalyze_try e f preview w =
     (case fileToGenerativePart e f of
        Inl x \<Rightarrow> (Some x, w)
      | Inr base64Data \<Rightarrow>
         (let w1 = emit (AiRequest (identify_request f base64Data)) w
          in case generateContent e (identify_request f base64Data) of
               Inl msg \<Rightarrow> (Some (ServiceError msg), w1)
             | Inr identifyResponse \<Rightarrow> analyze_research e preview identifyResponse w1))"

definition handleAnalyze :: "env \<Rightarrow> world \<Rightarrow> world" where
  "handleAnalyze e w =
     (case (file_s (ui w), imagePreview (ui w)) of
        (Some f, Some preview) \<Rightarrow>
          if preview = [] then w
          else
            (let w1 = setLoadingStep (js ''Identifying food...'') (setLoading True w);
                 (thrown, w2) = handleAnalyze_try e f preview w1;
                 w3 = (case thrown of
                         None \<Rightarrow> w2
                       | Some x \<Rightarrow>
                           emit (Alert (js ''Something went wrong. Please check your API key or try again.''))
                             (emit (ConsoleError (js ''Analysis Failed'')) w2))
             in setLoadingStep [] (setLoading False w3))
      | _ \<Rightarrow> w)"

section \<open>\<open>handleTextAnalyze\<close>\<close>

definition text_prompt :: "jsstring \<Rightarrow> jsstring" where
  \<open>text_prompt foodName =
     js ''Research the nutritional value of "'' @
     foodName @
     js ''" per standard serving.\<newline>'' @
     js ''\<newline>'' @
     js ''1. Write a 50-75 word engaging nutritional summary about it.\<newline>'' @
     js ''2. Provide specific numerical values for Calories (kcal), Protein (g), Fat (g), and Carbs (g).\<newline>'' @
     js ''\<newline>'' @
     js ''Format the output as follows:\<newline>'' @
     js ''[Summary Text]\<newline>'' @
     js ''\<newline>'' @
     js ''---JSON---\<newline>'' @
     js ''{\<newline>'' @
     js ''  "calories": number,\<newline>'' @
     js ''  "protein": number,\<newline>'' @
     js ''  "fat": number,\<newline>'' @
     js ''  "carbs": number\<newline>'' @
     js ''}\<newline>''\<close>

definition handleTextAnalyze_try :: "env \<Rightarrow> jsstring \<Rightarrow> world \<Rightarrow> exn option \<times> world" where
  "handleTextAnalyze_try e text w =
     (let foodName = trim text;
          w1 = emit (AiRequest (analysis_request (text_prompt foodName))) w
      in case generateContent e (analysis_request (text_prompt foodName)) of
           Inl msg \<Rightarrow> (Some (ServiceError msg), w1)
         | Inr analysisResponse \<Rightarrow>
            (let fullText = full_text_of analysisResponse;
                 parsed = parse_output_text fullText;
                 w2 = emit_all (map ConsoleError (logged parsed)) w1
             in (None,
                 setResult \<lparr>id_r = None, name = foodName, summary = summary_of parsed,
                            macros = macros_of parsed, imageUrl = None, timestamp = None,
                            sources = Some []\<rparr> w2)))"

definition handleTextAnalyze :: "env \<Rightarrow> world \<Rightarrow> world" where
  "handleTextAnalyze e w =
     (if searchText (ui w) = [] \<or> trim (searchText (ui w)) = [] then w
      else
        (let w1 = setLoadingStep (js ''Analyzing text prompt...'') (setLoading True w);
             (thrown, w2) = handleTextAnalyze_try e (searchText (ui w)) w1;
             w3 = (case thrown of
                     None \<Rightarrow> w2
                   | Some x \<Rightarrow>
                       emit (Alert (js ''Text analysis failed. Check console for details.''))
                         (emit (ConsoleError []) w2))
         in setLoadingStep [] (setLoading False w3)))"

section \<open>The triggers\<close>

text \<open>
  The triggers, as the component renders them. The upload view is rendered while
  \<open>result\<close> is null. In it, the Start Analysis button, whose \<open>onClick\<close> calls
  \<open>handleAnalyze\<close>, is rendered only when \<open>loading\<close> is false and \<open>imagePreview\<close> is
  truthy (while \<open>loading\<close> is true the spinner is rendered in its place; the file input
  is disabled and the drop zone ignores clicks). The Search button
  (\<open>onClick={handleTextAnalyze}\<close>) and the search input
  (\<open>onKeyDown\<close>: \<open>if (e.key === 'Enter') handleTextAnalyze()\<close>) are rendered in the
  upload view whatever \<open>loading\<close> is. A control that is not rendered cannot be
  activated.
\<close>

definition click_start_analysis :: "env \<Rightarrow> world \<Rightarrow> world" where
  "click_start_analysis e w =
     (if result (ui w) = None \<and> \<not> loading (ui w)
         \<and> imagePreview (ui w) \<noteq> None \<and> imagePreview (ui w) \<noteq> Some []
      then handleAnalyze e w else w)"

definition click_search :: "env \<Rightarrow> world \<Rightarrow> world" where
  "click_search e w = (if result (ui w) = None then handleTextAnalyze e w else w)"

definition press_enter_in_search :: "env \<Rightarrow> world \<Rightarrow> world" where
  "press_enter_in_search e w = (if result (ui w) = None then handleTextAnalyze e w else w)"

section \<open>Occurrences of the sentinel, and the macro set of a value\<close>

text \<open>
  \<open>count_occ sep s\<close> counts the positions of \<open>s\<close> at which \<open>sep\<close> occurs (overlapping
  occurrences included). \<open>macro_set m\<close> reads the four macro fields of \<open>m\<close>.
\<close>

fun count_occ :: "'a list \<Rightarrow> 'a list \<Rightarrow> nat" where
  "count_occ sep [] = (if sep = [] then 1 else 0)"
| "count_occ sep (c # cs) = (if starts_with sep (c # cs) then 1 else 0) + count_occ sep cs"

definition macro_keys :: "jsstring list" where
  "macro_keys = [js ''calories'', js ''protein'', js ''fat'', js ''carbs'']"

definition macro_set :: "jsvalue \<Rightarrow> (TypeError + jsvalue) list" where
  "macro_set m = map (get_prop m) macro_keys"

text \<open>A macro set whose four fields are all non-negative numbers.\<close>

fun nonneg_number :: "TypeError + jsvalue \<Rightarrow> bool" where
  "nonneg_number (Inr (JNum x)) = (0 \<le> x)"
| "nonneg_number other = False"

definition nonneg_macros :: "jsvalue \<Rightarrow> bool" where
  "nonneg_macros m = list_all nonneg_number (macro_set m)"

section \<open>Observations on a run of a handler\<close>

fun is_insert :: "event \<Rightarrow> bool" where
  "is_insert (StoreInsert r) = True"
| "is_insert other = False"

fun is_select :: "event \<Rightarrow> bool" where
  "is_select (StoreSelect q) = True"
| "is_select other = False"

fun is_alert :: "event \<Rightarrow> bool" where
  "is_alert (Alert m) = True"
| "is_alert other = False"

text \<open>An event that is neither a request to the store nor an alert.\<close>

fun quiet :: "event \<Rightarrow> bool" where
  "quiet (AiRequest q) = True"
| "quiet (ConsoleError l) = True"
| "quiet other = False"

text \<open>What Step 3 does to the outside, in order.\<close>

definition persist_events :: "env \<Rightarrow> insert_row \<Rightarrow> event list" where
  "persist_events e r =
     StoreInsert r #
       (case insert_error e r of
          Some saveError \<Rightarrow> [ConsoleError (js ''Supabase Save Error:'')]
        | None \<Rightarrow>
            StoreSelect history_query #
              (case select_error e of
                 None \<Rightarrow> []
               | Some err \<Rightarrow> [ConsoleError (js ''Supabase Load Error:'')]))"

text \<open>The record \<open>x\<close> shows what the row \<open>r\<close> holds.\<close>

definition shows_row :: "AnalysisResult \<Rightarrow> insert_row \<Rightarrow> bool" where
  "shows_row x r =
     (name x = row_name r \<and> summary x = row_summary r \<and> imageUrl x = Some (image_url r)
      \<and> macro_set (macros x) = [Inr (calories r), Inr (protein r), Inr (fat r), Inr (carbs r)])"

text \<open>
  How a \<open>try\<close> block of \<open>handleAnalyze\<close> can end, from the world \<open>w\<close>: with an exception
  after quiet events only, the store and the history untouched; or normally, after quiet
  events and then Step 3 for a row that the displayed result shows.
\<close>

definition try_outcome :: "env \<Rightarrow> world \<Rightarrow> exn option \<Rightarrow> world \<Rightarrow> bool" where
  "try_outcome e w thrown w' =
     (\<exists>pre. list_all quiet pre \<and>
        (if thrown \<noteq> None then
           trace w' = trace w @ pre \<and> table w' = table w \<and> history (ui w') = history (ui w)
         else
           (\<exists>r x. trace w' = trace w @ pre @ persist_events e r
              \<and> result (ui w') = Some x \<and> shows_row x r
              \<and> (if insert_error e r = None then table w' = table w @ [stored_as (new_id e) (now e) r]
                  else table w' = table w \<and> history (ui w') = history (ui w)))))"

text \<open>The events of a run that took the world \<open>w\<close> to \<open>w'\<close>.\<close>

definition run_events :: "world \<Rightarrow> world \<Rightarrow> event list" where
  "run_events w w' = drop (length (trace w)) (trace w')"

definition analyze_alert :: "event list" where
  "analyze_alert =
     [ConsoleError (js ''Analysis Failed''),
      Alert (js ''Something went wrong. Please check your API key or try again.'')]"

definition text_alert :: "event list" where
  "text_alert = [ConsoleError [], Alert (js ''Text analysis failed. Check console for details.'')]"

section \<open>Example inputs\<close>

definition demo_preview :: jsstring where
  "demo_preview = js ''data:image/jpeg;base64,AAAA''"

definition demo_text :: jsstring where
  \<open>demo_text =
     js ''A sweet tropical fruit...\<newline>\<newline>---JSON---\<newline>{"calories":105,"protein":1,"fat":0,"carbs":27}''\<close>

definition demo_macros :: jsvalue where
  "demo_macros =
     JObj [(js ''calories'', JNum 105), (js ''protein'', JNum 1), (js ''fat'', JNum 0), (js ''carbs'', JNum 27)]"

definition demo_row :: insert_row where
  "demo_row =
     \<lparr>row_name = js ''banana'', row_summary = js ''A sweet tropical fruit...'',
      image_url = demo_preview, calories = JNum 105, protein = JNum 1, fat = JNum 0,
      carbs = JNum 27\<rparr>"

definition demo_file :: jsfile where
  "demo_file = \<lparr>file_name = js ''banana.jpg'', file_type = js ''image/jpeg''\<rparr>"

text \<open>
  An outside world in which the reader gives \<open>demo_preview\<close>, the identification call
  answers \<open>banana\<close>, the analysis call answers \<open>demo_text\<close>, the select succeeds and the
  insert gives the error \<open>saveError\<close>, if any.
\<close>

definition demo_env :: "jsstring option \<Rightarrow> env" where
  "demo_env saveError =
     \<lparr>readAsDataURL = (\<lambda>f. Some demo_preview),
      generateContent =
        (\<lambda>q. if googleSearch q then Inr \<lparr>first_text = Some demo_text, groundingChunks = None\<rparr>
              else Inr \<lparr>first_text = Some (js ''banana''), groundingChunks = None\<rparr>),
      insert_error = (\<lambda>r. saveError),
      select_error = None,
      new_id = 1,
      now = 10\<rparr>"

definition demo_world :: world where
  "demo_world =
     \<lparr>ui = \<lparr>file_s = Some demo_file, imagePreview = Some demo_preview, searchText = js ''banana'',
             loading = False, loadingStep = [], result = None, history = []\<rparr>,
      table = [], trace = []\<rparr>"

definition demo_table :: "history_row list" where
  "demo_table = [stored_as 1 5 demo_row, stored_as 2 9 demo_row, stored_as 3 7 demo_row]"

section \<open>Facts about \<open>split\<close>\<close>

lemma starts_with_iff: "starts_with p s \<longleftrightarrow> (\<exists>q. s = p @ q)"
  by (induction p arbitrary: s) (auto split: list.splits)

lemma starts_with_append [simp]: "starts_with p (p @ q)"
  by (simp add: starts_with_iff)

lemma index_of_None_iff: "index_of sep s = None \<longleftrightarrow> count_occ sep s = 0"
  by (induction s) auto

lemma count_occ_0_iff: "count_occ sep s = 0 \<longleftrightarrow> \<not> (\<exists>p q. s = p @ sep @ q)"
proof (induction s)
  case Nil
  then show ?case by auto
next
  case (Cons c cs)
  show ?case
  proof
    assume z: "count_occ sep (c # cs) = 0"
    then have ns: "\<not> starts_with sep (c # cs)" and "count_occ sep cs = 0"
      by (auto split: if_splits)
    with Cons have no: "\<not> (\<exists>p q. cs = p @ sep @ q)" by simp
    show "\<not> (\<exists>p q. c # cs = p @ sep @ q)"
    proof
      assume "\<exists>p q. c # cs = p @ sep @ q"
      then obtain p q where pq: "c # cs = p @ sep @ q" by blast
      show False
      proof (cases p)
        case Nil
        with pq ns show False by (simp add: starts_with_iff)
      next
        case (Cons x p')
        with pq no show False by auto
      qed
    qed
  next
    assume no: "\<not> (\<exists>p q. c # cs = p @ sep @ q)"
    have "\<not> starts_with sep (c # cs)"
    proof
      assume "starts_with sep (c # cs)"
      then obtain q where "c # cs = [] @ sep @ q" by (auto simp: starts_with_iff)
      with no show False by blast
    qed
    moreover have "\<not> (\<exists>p q. cs = p @ sep @ q)"
    proof
      assume "\<exists>p q. cs = p @ sep @ q"
      then obtain p q where "cs = p @ sep @ q" by blast
      then have "c # cs = (c # p) @ sep @ q" by simp
      with no show False by blast
    qed
    ultimately show "count_occ sep (c # cs) = 0" using Cons by simp
  qed
qed

lemma split_on_no_occ: "sep \<noteq> [] \<Longrightarrow> count_occ sep s = 0 \<Longrightarrow> split_on sep s = [s]"
  by (simp add: split_on.simps [of sep s] index_of_None_iff [symmetric])

lemma sentinel_nonempty: "sentinel \<noteq> []"
  by (simp add: sentinel_def js_def)

lemma macro_set_default: "macro_set default_macros = [Inr (JNum 0), Inr (JNum 0), Inr (JNum 0), Inr (JNum 0)]"
  by (simp add: macro_set_def macro_keys_def default_macros_def js_def)

lemma count_occ_append_ge: "count_occ sep q \<le> count_occ sep (p @ q)"
  by (induction p) auto

lemma count_occ_at_ge1: "sep \<noteq> [] \<Longrightarrow> 1 \<le> count_occ sep (sep @ q)"
  by (cases sep) auto

lemma count_occ_occurs_ge1: "sep \<noteq> [] \<Longrightarrow> 1 \<le> count_occ sep (p @ sep @ q)"
  using count_occ_append_ge [of sep "sep @ q" p] count_occ_at_ge1 [of sep q] by simp

text \<open>The first occurrence: none starts before it.\<close>

lemma index_of_first:
  assumes "sep \<noteq> []" and "count_occ sep (a @ butlast sep) = 0"
  shows "index_of sep (a @ sep @ r) = Some (length a)"
  using assms(2)
proof (induction a)
  case Nil
  from assms(1) obtain x xs where "sep = x # xs" by (cases sep) auto
  then have "index_of sep (sep @ r) = Some 0"
    using starts_with_append [of sep r] by (simp del: starts_with_append)
  then show ?case by simp
next
  case (Cons x a)
  from Cons.prems have ns: "\<not> starts_with sep (x # a @ butlast sep)" and z: "count_occ sep (a @ butlast sep) = 0"
    by (auto split: if_splits)
  have "\<not> starts_with sep (x # a @ sep @ r)"
  proof
    assume "starts_with sep (x # a @ sep @ r)"
    then obtain q where q: "x # a @ sep @ r = sep @ q" by (auto simp: starts_with_iff)
    have "length sep \<le> length (x # a @ butlast sep)" using assms(1) by simp
    moreover have "x # a @ sep @ r = (x # a @ butlast sep) @ (last sep # r)"
      using assms(1) by simp
    ultimately have "take (length sep) (x # a @ sep @ r) = take (length sep) (x # a @ butlast sep)"
      by (metis take_append diff_is_0_eq take_0 append_Nil2)
    moreover from q have "take (length sep) (x # a @ sep @ r) = sep" by simp
    ultimately have "x # a @ butlast sep = sep @ drop (length sep) (x # a @ butlast sep)"
      by (metis append_take_drop_id)
    with ns show False by (metis starts_with_iff)
  qed
  with Cons.IH [OF z] show ?case by simp
qed

lemma split_on_first:
  assumes "sep \<noteq> []" and "count_occ sep (a @ butlast sep) = 0"
  shows "split_on sep (a @ sep @ r) = a # split_on sep r"
  using index_of_first [OF assms, of r] assms(1)
  by (simp add: split_on.simps [of sep "a @ sep @ r"])

text \<open>Exactly one occurrence: it is the first, and none follows.\<close>

lemma count_occ_one:
  assumes "sep \<noteq> []" and "count_occ sep (a @ sep @ b) = 1"
  shows "count_occ sep (a @ butlast sep) = 0 \<and> count_occ sep b = 0"
  using assms(2)
proof (induction a)
  case Nil
  from assms(1) obtain x xs where sep: "sep = x # xs" by (cases sep) auto
  from Nil have "count_occ sep (x # xs @ b) = 1" by (simp add: sep)
  then have t: "count_occ sep (xs @ b) = 0"
    using starts_with_append [of sep b] by (simp add: sep del: starts_with_append)
  have "count_occ sep b = 0"
    using count_occ_append_ge [of sep b xs] t by simp
  moreover have "count_occ sep (butlast sep) = 0"
  proof -
    have "\<not> (\<exists>p q. butlast sep = p @ sep @ q)"
    proof
      assume "\<exists>p q. butlast sep = p @ sep @ q"
      then obtain p q where "butlast sep = p @ sep @ q" by blast
      then have "length (butlast sep) = length p + length sep + length q" by simp
      moreover have "length (butlast sep) < length sep"
        using assms(1) by (cases sep rule: rev_cases) auto
      ultimately show False by linarith
    qed
    then show ?thesis by (simp add: count_occ_0_iff)
  qed
  ultimately show ?case by simp
next
  case (Cons x a)
  have ge: "1 \<le> count_occ sep (a @ sep @ b)" by (rule count_occ_occurs_ge1 [OF assms(1)])
  from Cons.prems have "(if starts_with sep (x # a @ sep @ b) then 1 else 0) + count_occ sep (a @ sep @ b) = 1"
    by simp
  with ge have ns: "\<not> starts_with sep (x # a @ sep @ b)" and one: "count_occ sep (a @ sep @ b) = 1"
    by (auto split: if_splits)
  from Cons.IH [OF one] have z: "count_occ sep (a @ butlast sep) = 0" and zb: "count_occ sep b = 0"
    by simp_all
  have "\<not> starts_with sep (x # a @ butlast sep)"
  proof
    assume "starts_with sep (x # a @ butlast sep)"
    then obtain q where "x # a @ butlast sep = sep @ q" by (auto simp: starts_with_iff)
    then have "x # a @ sep @ b = sep @ (q @ last sep # b)"
      using assms(1) by (metis append.assoc append_Cons append_butlast_last_id append_Nil)
    with ns show False by (metis starts_with_iff)
  qed
  with z zb show ?case by simp
qed

lemma split_on_once:
  assumes "sep \<noteq> []" and "count_occ sep (a @ sep @ b) = 1"
  shows "split_on sep (a @ sep @ b) = [a, b]"
  using count_occ_one [OF assms] split_on_first [OF assms(1), of a b] split_on_no_occ [OF assms(1), of b]
  by simp

section \<open>Facts about \<open>JSON.parse\<close>\<close>

lemma parse_rest_shorter_all:
  "(\<forall>ts v r. parse_value n ts = Ok (v, r) \<longrightarrow> length r < length ts) \<and>
   (\<forall>ts acc v r. parse_elems n ts acc = Ok (v, r) \<longrightarrow> length r < length ts) \<and>
   (\<forall>ts acc v r. parse_members n ts acc = Ok (v, r) \<longrightarrow> length r < length ts)"
proof (induction n)
  case 0
  show ?case by simp
next
  case (Suc n)
  then have IH1: "\<And>ts v r. parse_value n ts = Ok (v, r) \<Longrightarrow> length r < length ts"
    and IH2: "\<And>ts acc v r. parse_elems n ts acc = Ok (v, r) \<Longrightarrow> length r < length ts"
    and IH3: "\<And>ts acc v r. parse_members n ts acc = Ok (v, r) \<Longrightarrow> length r < length ts"
    by blast+
  have v: "length r < length ts" if "parse_value (Suc n) ts = Ok (v, r)" for ts v r
  proof (cases ts)
    case Nil
    with that show ?thesis by simp
  next
    case (Cons t ts')
    with that show ?thesis
      by (cases t) (auto split: list.splits token.splits dest: IH2 IH3)
  qed
  have e: "length r < length ts" if h: "parse_elems (Suc n) ts acc = Ok (v, r)" for ts acc v r
  proof (cases "parse_value n ts")
    case (Ok p)
    obtain x r0 where p: "p = (x, r0)" by (cases p)
    from Ok p have l: "length r0 < length ts" by (auto dest: IH1)
    show ?thesis
    proof (cases r0)
      case Nil
      with h Ok p show ?thesis by simp
    next
      case (Cons c r')
      with h Ok p l IH2 [of r' "acc @ [x]" v r] show ?thesis
        by (cases c) auto
    qed
  next
    case SyntaxError
    with h show ?thesis by simp
  next
    case OutOfFuel
    with h show ?thesis by simp
  qed
  have m: "length r < length ts" if h: "parse_members (Suc n) ts acc = Ok (v, r)" for ts acc v r
  proof -
    from h obtain k ts' where ts: "ts = TStr k # TColon # ts'"
      by (auto split: list.splits token.splits)
    show ?thesis
    proof (cases "parse_value n ts'")
      case (Ok p)
      obtain x r0 where p: "p = (x, r0)" by (cases p)
      from Ok p have l: "length r0 < length ts'" by (auto dest: IH1)
      show ?thesis
      proof (cases r0)
        case Nil
        with h ts Ok p show ?thesis by simp
      next
        case (Cons c r')
        with h ts Ok p l IH3 [of r' "obj_set k x acc" v r] show ?thesis
          by (cases c) auto
      qed
    next
      case SyntaxError
      with h ts show ?thesis by simp
    next
      case OutOfFuel
      with h ts show ?thesis by simp
    qed
  qed
  from v e m show ?case by blast
qed

lemma parse_value_shorter: "parse_value n ts = Ok (v, r) \<Longrightarrow> length r < length ts"
  using parse_rest_shorter_all by blast

text \<open>The budget is enough: two steps for every token, and one more.\<close>

lemma parse_fuel_all:
  "(\<forall>ts. 2 * length ts + 1 \<le> n \<longrightarrow> parse_value n ts \<noteq> OutOfFuel) \<and>
   (\<forall>ts acc. 2 * length ts + 2 \<le> n \<longrightarrow> parse_elems n ts acc \<noteq> OutOfFuel) \<and>
   (\<forall>ts acc. 2 * length ts + 2 \<le> n \<longrightarrow> parse_members n ts acc \<noteq> OutOfFuel)"
proof (induction n)
  case 0
  show ?case by simp
next
  case (Suc n)
  then have IH1: "\<And>ts. 2 * length ts + 1 \<le> n \<Longrightarrow> parse_value n ts \<noteq> OutOfFuel"
    and IH2: "\<And>ts acc. 2 * length ts + 2 \<le> n \<Longrightarrow> parse_elems n ts acc \<noteq> OutOfFuel"
    and IH3: "\<And>ts acc. 2 * length ts + 2 \<le> n \<Longrightarrow> parse_members n ts acc \<noteq> OutOfFuel"
    by blast+
  have v: "parse_value (Suc n) ts \<noteq> OutOfFuel" if "2 * length ts + 1 \<le> Suc n" for ts
  proof (cases ts)
    case Nil
    then show ?thesis by simp
  next
    case (Cons t ts')
    with that have b: "2 * length ts' + 2 \<le> n" by simp
    from Cons IH2 [OF b] IH3 [OF b] show ?thesis
      by (cases t) (auto split: list.splits token.splits)
  qed
  have e: "parse_elems (Suc n) ts acc \<noteq> OutOfFuel" if b: "2 * length ts + 2 \<le> Suc n" for ts acc
  proof (cases "parse_value n ts")
    case (Ok p)
    obtain x r where p: "p = (x, r)" by (cases p)
    from Ok p have "length r < length ts" by (auto dest: parse_value_shorter)
    with b have "\<And>c r'. r = c # r' \<Longrightarrow> 2 * length r' + 2 \<le> n" by auto
    then have "\<And>c r' a. r = c # r' \<Longrightarrow> parse_elems n r' a \<noteq> OutOfFuel"
      using IH2 by blast
    with Ok p show ?thesis
      by (auto split: list.splits token.splits)
  next
    case SyntaxError
    then show ?thesis by simp
  next
    case OutOfFuel
    with b IH1 [of ts] show ?thesis by simp
  qed
  have m: "parse_members (Suc n) ts acc \<noteq> OutOfFuel" if b: "2 * length ts + 2 \<le> Suc n" for ts acc
  proof -
    { fix k ts' assume ts: "ts = TStr k # TColon # ts'"
      have "parse_members (Suc n) ts acc \<noteq> OutOfFuel"
      proof (cases "parse_value n ts'")
        case (Ok p)
        obtain x r where p: "p = (x, r)" by (cases p)
        from Ok p have "length r < length ts'" by (auto dest: parse_value_shorter)
        with b ts have "\<And>c r'. r = c # r' \<Longrightarrow> 2 * length r' + 2 \<le> n" by auto
        then have "\<And>c r' a. r = c # r' \<Longrightarrow> parse_members n r' a \<noteq> OutOfFuel"
          using IH3 by blast
        with Ok p ts show ?thesis
          by (auto split: list.splits token.splits)
      next
        case SyntaxError
        with ts show ?thesis by simp
      next
        case OutOfFuel
        with b ts IH1 [of ts'] show ?thesis by simp
      qed }
    then show ?thesis
      by (auto split: list.splits token.splits)
  qed
  from v e m show ?case by blast
qed

lemma JSON_parse_fuel: "lex s = Some ts \<Longrightarrow> parse_value (2 * length ts + 1) ts \<noteq> OutOfFuel"
  using parse_fuel_all by blast

lemma JSON_parse_None_iff:
  "JSON_parse s = None \<longleftrightarrow>
     (lex s = None \<or> (\<exists>ts. lex s = Some ts \<and>
        (parse_value (2 * length ts + 1) ts = SyntaxError
         \<or> (\<exists>v r. parse_value (2 * length ts + 1) ts = Ok (v, r) \<and> r \<noteq> []))))"
proof (cases "lex s")
  case None
  then show ?thesis by (simp add: JSON_parse_def)
next
  case (Some ts)
  with JSON_parse_fuel [OF Some] show ?thesis
    by (cases "parse_value (2 * length ts + 1) ts")
       (auto simp: JSON_parse_def split: list.splits)
qed

text \<open>
  White space around a JSON text: what \<open>trim\<close> removes before \<open>JSON.parse\<close> sees the
  text is white space that \<open>JSON.parse\<close> would skip, or that would make it fail.
\<close>

lemma json_ws_is_ws: "is_json_ws c \<Longrightarrow> is_ws c"
  by (auto simp: is_json_ws_def is_ws_def)

lemma lex_ws_Cons:
  assumes "is_ws c" and "lex (c # s) = Some ts"
  shows "lex s = Some ts"
proof (cases "is_json_ws c")
  case True
  with assms show ?thesis by simp
next
  case False
  with assms have False
    by (auto simp: is_ws_def is_json_ws_def is_digit_def js_def split: if_splits)
  then show ?thesis ..
qed

lemma lex_dropWhile_ws: "lex s = Some ts \<Longrightarrow> lex (dropWhile is_ws s) = Some ts"
  by (induction s) (auto dest: lex_ws_Cons simp del: lex.simps)

lemma takeWhile_snoc: "\<not> P c \<Longrightarrow> takeWhile P (s @ [c]) = takeWhile P s"
  by (induction s) auto

lemma dropWhile_snoc: "\<not> P c \<Longrightarrow> dropWhile P (s @ [c]) = dropWhile P s @ [c]"
  by (induction s) auto

lemma ws_not_digit: "is_ws c \<Longrightarrow> \<not> is_digit c"
  by (auto simp: is_ws_def is_digit_def)

lemma lex_fraction_snoc:
  assumes "is_ws c" and "lex_fraction (s @ [c]) = Some (fp, r)"
  shows "\<exists>r'. r = r' @ [c] \<and> lex_fraction s = Some (fp, r')"
proof (cases s)
  case Nil
  with assms show ?thesis
    by (auto simp: lex_fraction_def is_ws_def split: if_splits)
next
  case (Cons p t)
  with assms ws_not_digit [OF assms(1)] show ?thesis
    by (auto simp: lex_fraction_def Let_def takeWhile_snoc dropWhile_snoc split: if_splits)
qed

lemma lex_exponent_snoc:
  assumes "is_ws c" and "lex_exponent (s @ [c]) = Some (ex, r)"
  shows "\<exists>r'. r = r' @ [c] \<and> lex_exponent s = Some (ex, r')"
proof (cases s)
  case Nil
  with assms show ?thesis
    by (auto simp: lex_exponent_def is_ws_def split: if_splits)
next
  case (Cons e t)
  note s = Cons
  have nd: "\<not> is_digit c" by (rule ws_not_digit [OF assms(1)])
  show ?thesis
  proof (cases "e = 101 \<or> e = 69")
    case False
    with assms s show ?thesis by (auto simp: lex_exponent_def)
  next
    case True
    show ?thesis
    proof (cases t)
      case Nil
      with assms s True nd show ?thesis
        by (auto simp: lex_exponent_def is_ws_def Let_def split: if_splits)
    next
      case (Cons g t')
      with assms s True nd show ?thesis
        by (auto simp: lex_exponent_def Let_def takeWhile_snoc dropWhile_snoc split: if_splits)
    qed
  qed
qed


lemma lex_number_snoc:
  assumes ws: "is_ws c" and s: "s \<noteq> []" and l: "lex_number (s @ [c]) = Some (x, r)"
  shows "\<exists>r'. r = r' @ [c] \<and> lex_number s = Some (x, r')"
proof -
  have nd: "\<not> is_digit c" by (rule ws_not_digit [OF ws])
  have c45: "c \<noteq> 45" using ws by (auto simp: is_ws_def)
  have tw: "takeWhile is_digit (u @ [c]) = takeWhile is_digit u"
    and dw: "dropWhile is_digit (u @ [c]) = dropWhile is_digit u @ [c]" for u
    using nd by (simp_all add: takeWhile_snoc dropWhile_snoc)
  obtain m t where mt: "s = m # t" using s by (cases s) auto
  define s1 where "s1 = (if m = 45 then t else s)"
  define neg where "neg = (m = 45)"
  have pre: "(case s @ [c] of [] \<Rightarrow> (False, s @ [c]) | m # r \<Rightarrow> if m = 45 then (True, r) else (False, s @ [c]))
             = (neg, s1 @ [c])"
    by (simp add: mt s1_def neg_def)
  have pre': "(case s of [] \<Rightarrow> (False, s) | m # r \<Rightarrow> if m = 45 then (True, r) else (False, s)) = (neg, s1)"
    by (simp add: mt s1_def neg_def)
  from l pre obtain fp s2 ex where
    ip: "\<not> (takeWhile is_digit s1 = [] \<or> hd (takeWhile is_digit s1) = 48 \<and> tl (takeWhile is_digit s1) \<noteq> [])" and
    fr: "lex_fraction (dropWhile is_digit s1 @ [c]) = Some (fp, s2)" and
    ex: "lex_exponent s2 = Some (ex, r)" and
    x: "x = (if neg then - 1 else 1) * of_nat (digits_val (takeWhile is_digit s1 @ fp)) * pow10 (ex - int (length fp))"
    by (auto simp: lex_number_def Let_def tw dw
        split: if_splits option.splits)
  from lex_fraction_snoc [OF ws fr] obtain s2' where s2: "s2 = s2' @ [c]" and fr': "lex_fraction (dropWhile is_digit s1) = Some (fp, s2')"
    by blast
  from lex_exponent_snoc [OF ws ex [unfolded s2]] obtain r' where r: "r = r' @ [c]" and ex': "lex_exponent s2' = Some (ex, r')"
    by blast
  from ip fr' ex' x pre' have "lex_number s = Some (x, r')"
    by (simp add: lex_number_def Let_def)
  with r show ?thesis by blast
qed

lemma lex_string_snoc:
  assumes ws: "is_ws c"
  shows "lex_string (s @ [c]) = Some (v, r) \<Longrightarrow> \<exists>r'. r = r' @ [c] \<and> lex_string s = Some (v, r')"
proof (induction s arbitrary: v r rule: length_induct)
  case (1 s)
  then have IH: "\<And>t v r. length t < length s \<Longrightarrow> lex_string (t @ [c]) = Some (v, r)
                   \<Longrightarrow> \<exists>r'. r = r' @ [c] \<and> lex_string t = Some (v, r')"
    by blast
  have c34: "c \<noteq> 34" and c92: "c \<noteq> 92" and c117: "c \<noteq> 117" and cu: "unescape c = None"
    and ch: "hexval c = None"
    using ws by (auto simp: is_ws_def unescape_def hexval_def)
  note p = "1.prems"
  show ?case
  proof (cases s)
    case Nil
    with p c34 c92 show ?thesis by (auto split: if_splits)
  next
    case (Cons a cs)
    note s = Cons
    show ?thesis
    proof (cases "a = 34 \<or> a < 32")
      case True
      with p s show ?thesis by (auto split: if_splits)
    next
      case False
      note a = False
      show ?thesis
      proof (cases "a = 92")
        case False
        with p s a obtain v' where "lex_string (cs @ [c]) = Some (v', r)" and v: "v = a # v'"
          by (auto split: option.splits)
        with IH [of cs v' r] s obtain r' where "r = r' @ [c]" "lex_string cs = Some (v', r')"
          by auto
        with s a False v show ?thesis by simp
      next
        case True
        note a92 = True
        show ?thesis
        proof (cases cs)
          case Nil
          with p s a92 c117 cu show ?thesis by simp
        next
          case (Cons e t)
          note cs = Cons
          show ?thesis
          proof (cases "e = 117")
            case False
            with p s a92 cs obtain u v' where u: "unescape e = Some u"
              and l: "lex_string (t @ [c]) = Some (v', r)" and v: "v = u # v'"
              by (auto split: option.splits)
            from IH [of t v' r] l s cs obtain r' where "r = r' @ [c]" "lex_string t = Some (v', r')"
              by auto
            with s a92 cs False u v show ?thesis by simp
          next
            case True
            note e = True
            show ?thesis
            proof (cases "length t < 4")
              case True
              then consider "t = []" | h1 where "t = [h1]" | h1 h2 where "t = [h1, h2]"
                | h1 h2 h3 where "t = [h1, h2, h3]"
                by (cases t; cases "tl t"; cases "tl (tl t)"; cases "tl (tl (tl t))") auto
              then show ?thesis
                using p s a92 cs e ch
                by cases (auto split: option.splits)
            next
              case False
              then obtain h1 h2 h3 h4 t' where t: "t = h1 # h2 # h3 # h4 # t'"
                by (cases t; cases "tl t"; cases "tl (tl t)"; cases "tl (tl (tl t))") auto
              with p s a92 cs e obtain a1 a2 a3 a4 v' where
                h: "hexval h1 = Some a1" "hexval h2 = Some a2" "hexval h3 = Some a3" "hexval h4 = Some a4"
                and l: "lex_string (t' @ [c]) = Some (v', r)"
                and v: "v = (((a1 * 16 + a2) * 16 + a3) * 16 + a4) # v'"
                by (auto split: option.splits)
              from IH [of t' v' r] l s cs t obtain r' where "r = r' @ [c]" "lex_string t' = Some (v', r')"
                by auto
              with s a92 cs e t h v show ?thesis by simp
            qed
          qed
        qed
      qed
    qed
  qed
qed


lemma starts_with_snoc:
  assumes "c \<notin> set p"
  shows "starts_with p (t @ [c]) = starts_with p t"
proof
  assume "starts_with p (t @ [c])"
  then obtain q where q: "t @ [c] = p @ q" by (auto simp: starts_with_iff)
  show "starts_with p t"
  proof (cases q rule: rev_cases)
    case Nil
    with q assms show ?thesis by auto
  next
    case (snoc q' x)
    with q have "t = p @ q'" by simp
    then show ?thesis by (simp add: starts_with_iff)
  qed
next
  assume "starts_with p t"
  then show "starts_with p (t @ [c])" by (auto simp: starts_with_iff)
qed

lemma drop_snoc: "n \<le> length t \<Longrightarrow> drop n (t @ [c]) = drop n t @ [c]"
  by simp

lemma lex_snoc:
  assumes ws: "is_ws c"
  shows "lex (s @ [c]) = Some ts \<Longrightarrow> lex s = Some ts"
proof (induction s arbitrary: ts rule: length_induct)
  case (1 s)
  then have IH: "\<And>t ts. length t < length s \<Longrightarrow> lex (t @ [c]) = Some ts \<Longrightarrow> lex t = Some ts"
    by blast
  note p = "1.prems"
  have notin: "c \<notin> set (js ''true'')" "c \<notin> set (js ''false'')" "c \<notin> set (js ''null'')"
    using ws by (auto simp: js_def is_ws_def)
  have lit: "starts_with (js ''true'') (t @ [c]) = starts_with (js ''true'') t"
    "starts_with (js ''false'') (t @ [c]) = starts_with (js ''false'') t"
    "starts_with (js ''null'') (t @ [c]) = starts_with (js ''null'') t" for t
    by (rule starts_with_snoc, rule notin)+
  show ?case
  proof (cases s)
    case Nil
    with p lex_ws_Cons [OF ws, of "[]" ts] show ?thesis by simp
  next
    case (Cons a cs)
    note s = Cons
    from p s have p': "lex (a # (cs @ [c])) = Some ts" by simp
    have IHcs: "\<And>ts. lex (cs @ [c]) = Some ts \<Longrightarrow> lex cs = Some ts"
      using IH [of cs] s by simp
    consider (simple) "is_json_ws a \<or> a = 123 \<or> a = 125 \<or> a = 91 \<or> a = 93 \<or> a = 58 \<or> a = 44"
      | (str) "\<not> (is_json_ws a \<or> a = 123 \<or> a = 125 \<or> a = 91 \<or> a = 93 \<or> a = 58 \<or> a = 44)" "a = 34"
      | (num) "\<not> (is_json_ws a \<or> a = 123 \<or> a = 125 \<or> a = 91 \<or> a = 93 \<or> a = 58 \<or> a = 44)" "a \<noteq> 34"
          "a = 45 \<or> is_digit a"
      | (name) "\<not> (is_json_ws a \<or> a = 123 \<or> a = 125 \<or> a = 91 \<or> a = 93 \<or> a = 58 \<or> a = 44)" "a \<noteq> 34"
          "\<not> (a = 45 \<or> is_digit a)"
      by blast
    then show ?thesis
    proof cases
      case simple
      with p' s show ?thesis
        by (auto split: if_splits dest!: IHcs)
    next
      case str
      with p' obtain v r ts' where l: "lex_string (cs @ [c]) = Some (v, r)"
        and r: "lex r = Some ts'" and ts: "ts = TStr v # ts'"
        by (auto split: option.splits)
      from lex_string_snoc [OF ws l] obtain r' where r': "r = r' @ [c]" and l': "lex_string cs = Some (v, r')"
        by blast
      from lex_string_length [OF l'] s have "length r' < length s" by simp
      from IH [OF this] r r' have "lex r' = Some ts'" by simp
      with str l' ts s show ?thesis by simp
    next
      case num
      with p' obtain x r ts' where l: "lex_number ((a # cs) @ [c]) = Some (x, r)"
        and r: "lex r = Some ts'" and ts: "ts = TNum x # ts'"
        by (auto split: option.splits)
      from lex_number_snoc [OF ws _ l] obtain r' where r': "r = r' @ [c]" and l': "lex_number (a # cs) = Some (x, r')"
        by blast
      from lex_number_length [OF l'] s have "length r' < length s" by simp
      from IH [OF this] r r' have "lex r' = Some ts'" by simp
      with num l' ts s show ?thesis by simp
    next
      case name
      have d: "drop (length q) ((a # cs) @ [c]) = drop (length q) (a # cs) @ [c]"
        if "starts_with q (a # cs)" for q
      proof -
        from that have "length q \<le> length (a # cs)" by (rule starts_with_length)
        then show ?thesis by (rule drop_snoc)
      qed
      have len: "length (js ''true'') = 4" "length (js ''false'') = 5" "length (js ''null'') = 4"
        by (simp_all add: js_def)
      have sh: "length (drop n (a # cs)) < length s" if "0 < n" for n
        using that s by simp
      from name p' lit [of "a # cs"] consider
          (t) ts' where "starts_with (js ''true'') (a # cs)" "lex (drop 4 ((a # cs) @ [c])) = Some ts'" "ts = TTrue # ts'"
        | (f) ts' where "\<not> starts_with (js ''true'') (a # cs)" "starts_with (js ''false'') (a # cs)"
            "lex (drop 5 ((a # cs) @ [c])) = Some ts'" "ts = TFalse # ts'"
        | (n) ts' where "\<not> starts_with (js ''true'') (a # cs)" "\<not> starts_with (js ''false'') (a # cs)"
            "starts_with (js ''null'') (a # cs)"
            "lex (drop 4 ((a # cs) @ [c])) = Some ts'" "ts = TNull # ts'"
        by (simp split: if_splits) blast+
      then show ?thesis
      proof cases
        case t
        from d [OF t(1)] have "drop 4 ((a # cs) @ [c]) = drop 4 (a # cs) @ [c]" by (simp only: len)
        with t(2) have "lex (drop 4 (a # cs) @ [c]) = Some ts'" by (simp only:)
        from IH [OF sh this] have "lex (drop 4 (a # cs)) = Some ts'" by simp
        with name t s show ?thesis by simp
      next
        case f
        from d [OF f(2)] have "drop 5 ((a # cs) @ [c]) = drop 5 (a # cs) @ [c]" by (simp only: len)
        with f(3) have "lex (drop 5 (a # cs) @ [c]) = Some ts'" by (simp only:)
        from IH [OF sh this] have "lex (drop 5 (a # cs)) = Some ts'" by simp
        with name f s show ?thesis by simp
      next
        case n
        from d [OF n(3)] have "drop 4 ((a # cs) @ [c]) = drop 4 (a # cs) @ [c]" by (simp only: len)
        with n(4) have "lex (drop 4 (a # cs) @ [c]) = Some ts'" by (simp only:)
        from IH [OF sh this] have "lex (drop 4 (a # cs)) = Some ts'" by simp
        with name n s show ?thesis by simp
      qed
    qed
  qed
qed

lemma lex_append_ws: "\<forall>c \<in> set w. is_ws c \<Longrightarrow> lex (s @ w) = Some ts \<Longrightarrow> lex s = Some ts"
proof (induction w arbitrary: ts rule: rev_induct)
  case Nil
  then show ?case by simp
next
  case (snoc c w)
  from snoc.prems have "is_ws c" and "lex ((s @ w) @ [c]) = Some ts" by simp_all
  then have "lex (s @ w) = Some ts" by (rule lex_snoc)
  with snoc show ?case by simp
qed

lemma lex_trim: "lex s = Some ts \<Longrightarrow> lex (trim s) = Some ts"
proof -
  assume l: "lex s = Some ts"
  define s1 where "s1 = dropWhile is_ws s"
  have l1: "lex s1 = Some ts" unfolding s1_def by (rule lex_dropWhile_ws [OF l])
  have "s1 = rev (takeWhile is_ws (rev s1) @ dropWhile is_ws (rev s1))"
    by (simp only: takeWhile_dropWhile_id rev_rev_ident)
  also have "\<dots> = rev (dropWhile is_ws (rev s1)) @ rev (takeWhile is_ws (rev s1))"
    by (rule rev_append)
  finally have dec: "s1 = trim s @ rev (takeWhile is_ws (rev s1))"
    by (simp only: trim_def s1_def)
  have "\<forall>c \<in> set (rev (takeWhile is_ws (rev s1))). is_ws c"
    by (auto dest: set_takeWhileD)
  from lex_append_ws [OF this, of "trim s" ts] l1 dec show ?thesis by simp
qed

text \<open>
  \<open>JSON.parse\<close> skips white space around the value itself, so trimming first loses
  nothing that parses.
\<close>

lemma JSON_parse_trim: "JSON_parse s = Some v \<Longrightarrow> JSON_parse (trim s) = Some v"
  by (auto simp: JSON_parse_def split: option.splits dest: lex_trim)

section \<open>Facts about the parse step\<close>

lemma parse_output_two:
  assumes "split_on sentinel fullText = a # b # rest"
  shows "parse_output fullText =
           (case JSON_parse (trim (strip_fences b)) of
              Some v \<Rightarrow> \<lparr>summary_of = trim a, macros_of = v, logged = []\<rparr>
            | None \<Rightarrow>
                \<lparr>summary_of = trim a,
                 macros_of =
                   (case calories_match fullText of
                      Some ds \<Rightarrow> set_prop default_macros (js ''calories'') (JNum (parseInt ds))
                    | None \<Rightarrow> default_macros),
                 logged = [js ''JSON Parse Error'']\<rparr>)"
  using assms by (simp add: parse_output_def Let_def split: option.split)

lemma parse_output_text_two:
  assumes "split_on sentinel fullText = a # b # rest"
  shows "parse_output_text fullText =
           (case JSON_parse (trim (strip_fences b)) of
              Some v \<Rightarrow> \<lparr>summary_of = trim a, macros_of = v, logged = []\<rparr>
            | None \<Rightarrow>
                \<lparr>summary_of = trim a, macros_of = default_macros,
                 logged = [js ''JSON Parse Error'']\<rparr>)"
  using assms by (simp add: parse_output_text_def Let_def split: option.split)

lemma nonneg_default: "nonneg_macros default_macros"
  by (simp add: nonneg_macros_def macro_set_default)

lemma nonneg_recovered:
  "nonneg_macros (set_prop default_macros (js ''calories'') (JNum (parseInt ds)))"
  by (simp add: nonneg_macros_def macro_set_def macro_keys_def default_macros_def js_def parseInt_def)

text \<open>What the two handlers make of a response whose JSON does not parse.\<close>

lemma parse_output_fallback:
  assumes "split_on sentinel fullText = a # b # rest" and "JSON_parse (trim (strip_fences b)) = None"
  shows "macros_of (parse_output fullText) =
           (case calories_match fullText of
              Some ds \<Rightarrow> set_prop default_macros (js ''calories'') (JNum (parseInt ds))
            | None \<Rightarrow> default_macros)"
    and "macros_of (parse_output_text fullText) = default_macros"
  using assms(2) by (simp_all add: parse_output_two [OF assms(1)] parse_output_text_two [OF assms(1)])

section \<open>Facts about the stripping of the fences\<close>

lemma fence_json_is_fence: "starts_with (fence @ js ''json'') s \<Longrightarrow> starts_with fence s"
  by (auto simp: starts_with_iff)

lemma strip_fences_keep:
  "\<not> starts_with fence (c # cs) \<Longrightarrow> strip_fences (c # cs) = c # strip_fences cs"
  using fence_json_is_fence [of "c # cs"] by auto

lemma not_backquote_no_fence: "c \<noteq> 96 \<Longrightarrow> \<not> starts_with fence (c # cs)"
  by (simp add: fence_def)

lemma strip_fences_prefix: "96 \<notin> set x \<Longrightarrow> strip_fences (x @ s) = x @ strip_fences s"
proof (induction x)
  case Nil
  show ?case by simp
next
  case (Cons c x)
  then have "c \<noteq> 96" by auto
  from strip_fences_keep [OF not_backquote_no_fence [OF this], of "x @ s"] Cons show ?case
    by simp
qed

lemma strip_fences_plain: "96 \<notin> set s \<Longrightarrow> strip_fences s = s"
  using strip_fences_prefix [of s "[]"] by simp

lemma strip_fences_json_fence: "strip_fences (fence @ js ''json'' @ y) = strip_fences y"
proof -
  have e: "fence @ js ''json'' @ y = 96 # (96 # 96 # js ''json'' @ y)"
    by (simp add: fence_def)
  have "starts_with (fence @ js ''json'') (fence @ js ''json'' @ y)"
    using starts_with_append [of "fence @ js ''json''" y] by simp
  then have sw: "starts_with (fence @ js ''json'') (96 # (96 # 96 # js ''json'' @ y))"
    by (simp only: e)
  have d: "drop 7 (96 # (96 # 96 # js ''json'' @ y)) = y"
    by (simp add: js_def)
  have "strip_fences (96 # (96 # 96 # js ''json'' @ y))
      = strip_fences (drop 7 (96 # (96 # 96 # js ''json'' @ y)))"
    using sw by (simp only: strip_fences.simps if_True)
  then show ?thesis by (simp only: e d)
qed

lemma strip_fences_bare_fence:
  assumes "\<not> starts_with (js ''json'') y"
  shows "strip_fences (fence @ y) = strip_fences y"
proof -
  have f: "fence @ y = 96 # (96 # 96 # y)" by (simp add: fence_def)
  have a: "\<not> starts_with (fence @ js ''json'') (96 # (96 # 96 # y))"
    using assms by (simp add: fence_def)
  have b: "starts_with fence (96 # (96 # 96 # y))"
    by (simp add: fence_def)
  have d: "drop 3 (96 # (96 # 96 # y)) = y" by simp
  have "strip_fences (96 # (96 # 96 # y)) = strip_fences (drop 3 (96 # (96 # 96 # y)))"
    using a b by (simp only: strip_fences.simps if_True if_False)
  then show ?thesis by (simp only: f d)
qed

lemma json_not_across_fence:
  assumes "\<not> starts_with (js ''json'') y"
  shows "\<not> starts_with (js ''json'') (y @ fence @ z)"
proof
  assume "starts_with (js ''json'') (y @ fence @ z)"
  then obtain q where q: "y @ fence @ z = js ''json'' @ q" by (auto simp: starts_with_iff)
  then have "take 4 (y @ fence @ z) = take 4 (js ''json'' @ q)" by simp
  then have t: "take 4 (y @ fence @ z) = js ''json''" by (simp add: js_def)
  show False
  proof (cases "4 \<le> length y")
    case True
    with t have "take 4 y = js ''json''" by simp
    then have "y = js ''json'' @ drop 4 y" by (metis append_take_drop_id)
    with assms show False by (metis starts_with_iff)
  next
    case False
    then have "take 4 (y @ fence @ z) = y @ 96 # take (3 - length y) (96 # 96 # z)"
      by (simp add: fence_def take_Cons')
    with t have "96 \<in> set (js ''json'')" by (metis in_set_conv_decomp)
    then show False by (simp add: js_def)
  qed
qed

text \<open>A reply whose only backquotes are an opening and a closing fence.\<close>

lemma strip_fences_fenced:
  assumes "96 \<notin> set (x @ y @ z)" and "\<not> starts_with (js ''json'') z"
  shows "strip_fences (x @ fence @ js ''json'' @ y @ fence @ z) = x @ y @ z"
    and "\<not> starts_with (js ''json'') y \<Longrightarrow> strip_fences (x @ fence @ y @ fence @ z) = x @ y @ z"
proof -
  from assms(1) have x: "96 \<notin> set x" and y: "96 \<notin> set y" and z: "96 \<notin> set z" by auto
  have t: "strip_fences (y @ fence @ z) = y @ z"
    by (simp only: strip_fences_prefix [OF y] strip_fences_bare_fence [OF assms(2)] strip_fences_plain [OF z])
  show "strip_fences (x @ fence @ js ''json'' @ y @ fence @ z) = x @ y @ z"
    by (simp only: strip_fences_prefix [OF x] strip_fences_json_fence t)
  show "strip_fences (x @ fence @ y @ fence @ z) = x @ y @ z" if "\<not> starts_with (js ''json'') y"
    by (simp only: strip_fences_prefix [OF x] strip_fences_bare_fence [OF json_not_across_fence [OF that]] t)
qed

text \<open>What \<open>strip_fences\<close> returns holds no fence.\<close>

lemma no_fence_step:
  assumes "\<not> starts_with fence (c # cs)"
  shows "\<not> starts_with fence (c # strip_fences cs)"
proof
  assume a: "starts_with fence (c # strip_fences cs)"
  then have c: "c = 96" by (simp add: fence_def)
  from a obtain r where r: "strip_fences cs = 96 # 96 # r"
    by (auto simp: fence_def split: list.splits)
  from r obtain d ds where cs: "cs = d # ds" by (cases cs) auto
  have nf: "\<not> starts_with fence (d # ds)"
  proof
    assume "starts_with fence (d # ds)"
    with c cs assms show False by (auto simp: fence_def split: list.splits)
  qed
  from strip_fences_keep [OF nf] r cs have d: "d = 96" and r2: "strip_fences ds = 96 # r" by simp_all
  from r2 obtain e es where ds: "ds = e # es" by (cases ds) auto
  have nf2: "\<not> starts_with fence (e # es)"
  proof
    assume "starts_with fence (e # es)"
    with c d cs ds assms show False by (auto simp: fence_def split: list.splits)
  qed
  from strip_fences_keep [OF nf2] r2 ds have "e = 96" by simp
  with c d cs ds assms show False by (simp add: fence_def)
qed

lemma no_fence_left: "count_occ fence (strip_fences s) = 0"
proof (induction s rule: strip_fences.induct)
  case 1
  show ?case by (simp add: fence_def)
next
  case (2 c cs)
  show ?case
  proof (cases "starts_with fence (c # cs)")
    case True
    with 2 show ?thesis by (auto simp del: drop_Suc_Cons)
  next
    case False
    with 2 fence_json_is_fence [of "c # cs"] have "count_occ fence (strip_fences cs) = 0" by auto
    with no_fence_step [OF False] strip_fences_keep [OF False] show ?thesis by simp
  qed
qed

section \<open>A second occurrence of the sentinel\<close>

text \<open>
  The sentinel ends with the three hyphens it starts with, so an occurrence can start
  inside another one, on one of its last three code units. What follows the first
  occurrence then starts with \<open>JSON---\<close>, \<open>-JSON---\<close> or \<open>--JSON---\<close>, so does piece 1
  of the split, and no such text is JSON.
\<close>

lemma sentinel_overlap:
  assumes "0 < d" and "d < length sentinel" and "starts_with sentinel (drop d (sentinel @ r))"
  shows "(\<exists>r'. r = 74 # 83 # r') \<or> (\<exists>r'. r = 45 # 74 # r') \<or> (\<exists>r'. r = 45 # 45 # 74 # r')"
proof -
  from assms(1,2) have "d = 1 \<or> d = 2 \<or> d = 3 \<or> d = 4 \<or> d = 5 \<or> d = 6 \<or> d = 7 \<or> d = 8 \<or> d = 9"
    by (simp add: sentinel_def js_def) arith
  with assms(3) show ?thesis
    by (elim disjE) (simp_all add: sentinel_def js_def split: list.splits)
qed

lemma trim_keeps_two:
  assumes "\<not> is_ws c1" and "\<not> is_ws c2"
  shows "\<exists>y. trim (c1 # c2 # x) = c1 # c2 # y"
proof -
  have "dropWhile is_ws ((rev x @ [c2]) @ [c1]) = dropWhile is_ws (rev x @ [c2]) @ [c1]"
    using assms(1) by (rule dropWhile_snoc [of is_ws c1 "rev x @ [c2]"])
  also have "dropWhile is_ws (rev x @ [c2]) = dropWhile is_ws (rev x) @ [c2]"
    using assms(2) by (rule dropWhile_snoc [of is_ws c2 "rev x"])
  finally show ?thesis using assms(1) by (simp add: trim_def)
qed

lemma lex_bad_start:
  "lex (74 # y) = None" "lex (45 # 74 # y) = None" "lex (45 # 45 # y) = None"
proof -
  show "lex (74 # y) = None"
    by (simp add: is_json_ws_def is_digit_def js_def)
  have n: "lex_number (45 # 74 # y) = None" "lex_number (45 # 45 # y) = None"
    by (simp_all add: lex_number_def is_digit_def)
  show "lex (45 # 74 # y) = None"
    by (simp add: is_json_ws_def n(1))
  show "lex (45 # 45 # y) = None"
    by (simp add: is_json_ws_def n(2))
qed

lemma JSON_parse_bad_start:
  "JSON_parse (74 # y) = None" "JSON_parse (45 # 74 # y) = None" "JSON_parse (45 # 45 # y) = None"
  by (simp_all only: JSON_parse_def lex_bad_start option.case)

lemma unparsable_start:
  assumes "b = c1 # c2 # b'" and "(c1 = 74 \<and> c2 = 83) \<or> (c1 = 45 \<and> c2 = 74) \<or> (c1 = 45 \<and> c2 = 45)"
  shows "JSON_parse (trim (strip_fences b)) = None"
proof -
  have ws: "\<not> is_ws 74" "\<not> is_ws 83" "\<not> is_ws 45" by (simp_all add: is_ws_def)
  from assms(2) have n: "c1 \<noteq> 96" "c2 \<noteq> 96" by auto
  from assms(2) ws have w: "\<not> is_ws c1" "\<not> is_ws c2" by auto
  have "strip_fences b = c1 # c2 # strip_fences b'"
    unfolding assms(1)
    by (simp only: strip_fences_keep [OF not_backquote_no_fence [OF n(1)]]
        strip_fences_keep [OF not_backquote_no_fence [OF n(2)]])
  with trim_keeps_two [OF w, of "strip_fences b'"] obtain y where
    t: "trim (strip_fences b) = c1 # c2 # y" by auto
  from assms(2) show ?thesis unfolding t
    by (elim disjE conjE) (simp_all only: JSON_parse_bad_start)
qed

lemma split_head_two:
  assumes "\<not> starts_with sentinel (c1 # c2 # r')" and "\<not> starts_with sentinel (c2 # r')"
    and "split_on sentinel (c1 # c2 # r') = b # rest"
  shows "\<exists>b'. b = c1 # c2 # b'"
proof -
  have "index_of sentinel (c1 # c2 # r') = None
      \<or> (\<exists>k. index_of sentinel (c1 # c2 # r') = Some (Suc (Suc k)))"
    using assms(1,2) by (cases "index_of sentinel r'") simp_all
  then show ?thesis
  proof
    assume "index_of sentinel (c1 # c2 # r') = None"
    with assms(3) sentinel_nonempty have "b = c1 # c2 # r'"
      by (simp add: split_on.simps [of sentinel "c1 # c2 # r'"])
    then show ?thesis by blast
  next
    assume "\<exists>k. index_of sentinel (c1 # c2 # r') = Some (Suc (Suc k))"
    then obtain k where "index_of sentinel (c1 # c2 # r') = Some (Suc (Suc k))" by blast
    with assms(3) sentinel_nonempty have "b = take (Suc (Suc k)) (c1 # c2 # r')"
      by (simp add: split_on.simps [of sentinel "c1 # c2 # r'"])
    then show ?thesis by simp
  qed
qed

lemma overlap_piece_unparsable:
  assumes "0 < d" and "d < length sentinel" and "starts_with sentinel (drop d (sentinel @ r))"
    and "split_on sentinel r = b # rest"
  shows "JSON_parse (trim (strip_fences b)) = None"
proof -
  have s: "sentinel = [45, 45, 45, 74, 83, 79, 78, 45, 45, 45]"
    by (simp add: sentinel_def js_def)
  from sentinel_overlap [OF assms(1-3)]
  consider r' where "r = 74 # 83 # r'" | r' where "r = 45 # 74 # r'" | r' where "r = 45 # 45 # 74 # r'"
    by blast
  then show ?thesis
  proof cases
    case 1
    have "\<not> starts_with sentinel (74 # 83 # r')" "\<not> starts_with sentinel (83 # r')"
      unfolding s by simp_all
    from split_head_two [OF this assms(4) [unfolded 1]] obtain b' where "b = 74 # 83 # b'" ..
    then show ?thesis by (rule unparsable_start) simp
  next
    case 2
    have "\<not> starts_with sentinel (45 # 74 # r')" "\<not> starts_with sentinel (74 # r')"
      unfolding s by simp_all
    from split_head_two [OF this assms(4) [unfolded 2]] obtain b' where "b = 45 # 74 # b'" ..
    then show ?thesis by (rule unparsable_start) simp
  next
    case 3
    have "\<not> starts_with sentinel (45 # 45 # 74 # r')" "\<not> starts_with sentinel (45 # 74 # r')"
      unfolding s by simp_all
    from split_head_two [OF this assms(4) [unfolded 3]] obtain b' where "b = 45 # 45 # b'" ..
    then show ?thesis by (rule unparsable_start) simp
  qed
qed

lemma split_on_nonempty: "sep \<noteq> [] \<Longrightarrow> split_on sep s \<noteq> []"
  by (simp add: split_on.simps [of sep s] split: option.splits)

lemma count_occ_butlast: "sep \<noteq> [] \<Longrightarrow> count_occ sep (butlast sep) = 0"
proof -
  assume ne: "sep \<noteq> []"
  have "\<not> (\<exists>p q. butlast sep = p @ sep @ q)"
  proof
    assume "\<exists>p q. butlast sep = p @ sep @ q"
    then obtain p q where "butlast sep = p @ sep @ q" by blast
    then have "length (butlast sep) = length p + length sep + length q" by simp
    moreover have "length (butlast sep) < length sep"
      using ne by (cases sep rule: rev_cases) auto
    ultimately show False by linarith
  qed
  then show ?thesis by (simp add: count_occ_0_iff)
qed

text \<open>An occurrence that starts in \<open>x # a\<close> lies within \<open>x # a @ butlast sep\<close>.\<close>

lemma starts_with_within:
  assumes "sep \<noteq> []" and "starts_with sep (x # a @ sep @ r)"
  shows "starts_with sep (x # a @ butlast sep)"
proof -
  from assms(2) obtain q where q: "x # a @ sep @ r = sep @ q" by (auto simp: starts_with_iff)
  have "length sep \<le> length (x # a @ butlast sep)" using assms(1) by simp
  moreover have "x # a @ sep @ r = (x # a @ butlast sep) @ (last sep # r)"
    using assms(1) by simp
  ultimately have "take (length sep) (x # a @ sep @ r) = take (length sep) (x # a @ butlast sep)"
    by (metis take_append diff_is_0_eq take_0 append_Nil2)
  moreover from q have "take (length sep) (x # a @ sep @ r) = sep" by simp
  ultimately have "x # a @ butlast sep = sep @ drop (length sep) (x # a @ butlast sep)"
    by (metis append_take_drop_id)
  then show ?thesis by (metis starts_with_iff)
qed

text \<open>Every text with an occurrence has a first one.\<close>

lemma first_occurrence:
  assumes "sep \<noteq> []" and "1 \<le> count_occ sep t"
  shows "\<exists>a r. t = a @ sep @ r \<and> count_occ sep (a @ butlast sep) = 0"
  using assms(2)
proof (induction t)
  case Nil
  with assms(1) show ?case by (cases sep) auto
next
  case (Cons x t)
  show ?case
  proof (cases "starts_with sep (x # t)")
    case True
    then obtain r where "x # t = [] @ sep @ r" by (auto simp: starts_with_iff)
    moreover have "count_occ sep ([] @ butlast sep) = 0" using count_occ_butlast [OF assms(1)] by simp
    ultimately show ?thesis by blast
  next
    case False
    with Cons.prems have "1 \<le> count_occ sep t" by simp
    from Cons.IH [OF this] obtain a r where t: "t = a @ sep @ r" and z: "count_occ sep (a @ butlast sep) = 0"
      by blast
    have "\<not> starts_with sep (x # a @ butlast sep)"
    proof
      assume "starts_with sep (x # a @ butlast sep)"
      then obtain q where "x # a @ butlast sep = sep @ q" by (auto simp: starts_with_iff)
      then have "x # a @ sep @ r = sep @ (q @ last sep # r)"
        using assms(1) by (metis append.assoc append_Cons append_butlast_last_id append_Nil)
      with False t show False by (metis starts_with_iff)
    qed
    with z have "count_occ sep ((x # a) @ butlast sep) = 0" by simp
    moreover from t have "x # t = (x # a) @ sep @ r" by simp
    ultimately show ?thesis by blast
  qed
qed

text \<open>With no occurrence starting before it, the first occurrence is the first counted.\<close>

lemma count_occ_from_first:
  assumes "sep \<noteq> []" and "count_occ sep (a @ butlast sep) = 0"
  shows "count_occ sep (a @ sep @ r) = count_occ sep (sep @ r)"
  using assms(2)
proof (induction a)
  case Nil
  show ?case by simp
next
  case (Cons x a)
  from Cons.prems have ns: "\<not> starts_with sep (x # a @ butlast sep)" and z: "count_occ sep (a @ butlast sep) = 0"
    by (auto split: if_splits)
  from ns starts_with_within [OF assms(1), of x a r] have "\<not> starts_with sep (x # a @ sep @ r)" by blast
  with Cons.IH [OF z] show ?case by simp
qed

lemma occurrence_in_append:
  assumes "1 \<le> count_occ sep (u @ r)"
  shows "(\<exists>d<length u. starts_with sep (drop d (u @ r))) \<or> 1 \<le> count_occ sep r"
  using assms
proof (induction u)
  case Nil
  then show ?case by simp
next
  case (Cons x u)
  show ?case
  proof (cases "starts_with sep (x # u @ r)")
    case True
    then have "starts_with sep (drop 0 ((x # u) @ r))" by simp
    then show ?thesis by (metis length_greater_0_conv list.distinct(1))
  next
    case False
    with Cons.prems have "1 \<le> count_occ sep (u @ r)" by simp
    from Cons.IH [OF this] show ?thesis
    proof
      assume "\<exists>d<length u. starts_with sep (drop d (u @ r))"
      then obtain d where "d < length u" "starts_with sep (drop d (u @ r))" by blast
      then have "Suc d < length (x # u)" "starts_with sep (drop (Suc d) ((x # u) @ r))" by simp_all
      then show ?thesis by blast
    next
      assume "1 \<le> count_occ sep r"
      then show ?thesis by simp
    qed
  qed
qed

text \<open>
  A second occurrence either starts inside the first one or lies wholly behind it, and
  then \<open>split\<close> finds it.
\<close>

lemma second_occurrence:
  assumes "sep \<noteq> []" and "count_occ sep (a @ butlast sep) = 0" and "2 \<le> count_occ sep (a @ sep @ r)"
  shows "(\<exists>d. 0 < d \<and> d < length sep \<and> starts_with sep (drop d (sep @ r)))
       \<or> (\<exists>b c. r = b @ sep @ c \<and> count_occ sep (b @ butlast sep) = 0)"
proof -
  from assms(1) obtain x xs where sep: "sep = x # xs" by (cases sep) auto
  from assms(3) count_occ_from_first [OF assms(1,2), of r] have "2 \<le> count_occ sep (sep @ r)" by simp
  then have "2 \<le> (if starts_with sep (sep @ r) then 1 else 0) + count_occ sep (xs @ r)"
    by (simp add: sep del: starts_with_append)
  then have "1 \<le> count_occ sep (xs @ r)" by (simp split: if_splits)
  from occurrence_in_append [OF this] show ?thesis
  proof
    assume "\<exists>d<length xs. starts_with sep (drop d (xs @ r))"
    then obtain d where "d < length xs" "starts_with sep (drop d (xs @ r))" by blast
    then have "0 < Suc d \<and> Suc d < length sep \<and> starts_with sep (drop (Suc d) (sep @ r))"
      by (simp add: sep)
    then show ?thesis by blast
  next
    assume "1 \<le> count_occ sep r"
    from first_occurrence [OF assms(1) this] show ?thesis by blast
  qed
qed

section \<open>Facts about the parse step, piece by piece\<close>

lemma parsed_macros_trim:
  assumes "split_on sentinel fullText = a # b # rest" and "JSON_parse (trim (strip_fences b)) = Some v"
  shows "macros_of (parse_output fullText) = v \<and> macros_of (parse_output_text fullText) = v"
  using assms(2) by (simp add: parse_output_two [OF assms(1)] parse_output_text_two [OF assms(1)])

lemma parsed_macros:
  assumes "split_on sentinel fullText = a # b # rest" and "JSON_parse (strip_fences b) = Some v"
  shows "macros_of (parse_output fullText) = v \<and> macros_of (parse_output_text fullText) = v"
  using parsed_macros_trim [OF assms(1) JSON_parse_trim [OF assms(2)]] .

text \<open>
  What the parse step makes of piece 1 of the split, with the stripping of the fences
  written out: for a piece with no backquote, and for a piece whose only backquotes are
  an opening fence, with or without \<open>json\<close> behind it, and a closing fence.
\<close>

lemma macros_clauses:
  assumes sp: "split_on sentinel fullText = a # b # rest"
  shows "\<forall>v. JSON_parse (strip_fences b) = Some v \<longrightarrow>
              macros_of (parse_output fullText) = v \<and> macros_of (parse_output_text fullText) = v"
    and "\<forall>v. JSON_parse (trim (strip_fences b)) = Some v \<longrightarrow>
              macros_of (parse_output fullText) = v \<and> macros_of (parse_output_text fullText) = v"
    and "count_occ fence (strip_fences b) = 0"
    and "\<forall>v. 96 \<notin> set b \<and> JSON_parse b = Some v \<longrightarrow>
              macros_of (parse_output fullText) = v \<and> macros_of (parse_output_text fullText) = v"
    and "\<forall>x y z v. b = x @ fence @ js ''json'' @ y @ fence @ z \<and> 96 \<notin> set (x @ y @ z)
              \<and> \<not> starts_with (js ''json'') z \<and> JSON_parse (x @ y @ z) = Some v \<longrightarrow>
              macros_of (parse_output fullText) = v \<and> macros_of (parse_output_text fullText) = v"
    and "\<forall>x y z v. b = x @ fence @ y @ fence @ z \<and> 96 \<notin> set (x @ y @ z)
              \<and> \<not> starts_with (js ''json'') y \<and> \<not> starts_with (js ''json'') z
              \<and> JSON_parse (x @ y @ z) = Some v \<longrightarrow>
              macros_of (parse_output fullText) = v \<and> macros_of (parse_output_text fullText) = v"
proof -
  show "\<forall>v. JSON_parse (strip_fences b) = Some v \<longrightarrow>
              macros_of (parse_output fullText) = v \<and> macros_of (parse_output_text fullText) = v"
    by (intro allI impI) (erule parsed_macros [OF sp])
  show "\<forall>v. JSON_parse (trim (strip_fences b)) = Some v \<longrightarrow>
              macros_of (parse_output fullText) = v \<and> macros_of (parse_output_text fullText) = v"
    by (intro allI impI) (erule parsed_macros_trim [OF sp])
  show "count_occ fence (strip_fences b) = 0" by (rule no_fence_left)
  show "\<forall>v. 96 \<notin> set b \<and> JSON_parse b = Some v \<longrightarrow>
              macros_of (parse_output fullText) = v \<and> macros_of (parse_output_text fullText) = v"
  proof (intro allI impI, elim conjE)
    fix v assume n: "96 \<notin> set b" and j: "JSON_parse b = Some v"
    from j have "JSON_parse (strip_fences b) = Some v" by (simp only: strip_fences_plain [OF n])
    then show "macros_of (parse_output fullText) = v \<and> macros_of (parse_output_text fullText) = v"
      by (rule parsed_macros [OF sp])
  qed
  show "\<forall>x y z v. b = x @ fence @ js ''json'' @ y @ fence @ z \<and> 96 \<notin> set (x @ y @ z)
              \<and> \<not> starts_with (js ''json'') z \<and> JSON_parse (x @ y @ z) = Some v \<longrightarrow>
              macros_of (parse_output fullText) = v \<and> macros_of (parse_output_text fullText) = v"
  proof (intro allI impI, elim conjE)
    fix x y z v
    assume b: "b = x @ fence @ js ''json'' @ y @ fence @ z" and n: "96 \<notin> set (x @ y @ z)"
      and nz: "\<not> starts_with (js ''json'') z" and j: "JSON_parse (x @ y @ z) = Some v"
    from j have "JSON_parse (strip_fences b) = Some v"
      by (simp only: b strip_fences_fenced(1) [OF n nz])
    then show "macros_of (parse_output fullText) = v \<and> macros_of (parse_output_text fullText) = v"
      by (rule parsed_macros [OF sp])
  qed
  show "\<forall>x y z v. b = x @ fence @ y @ fence @ z \<and> 96 \<notin> set (x @ y @ z)
              \<and> \<not> starts_with (js ''json'') y \<and> \<not> starts_with (js ''json'') z
              \<and> JSON_parse (x @ y @ z) = Some v \<longrightarrow>
              macros_of (parse_output fullText) = v \<and> macros_of (parse_output_text fullText) = v"
  proof (intro allI impI, elim conjE)
    fix x y z v
    assume b: "b = x @ fence @ y @ fence @ z" and n: "96 \<notin> set (x @ y @ z)"
      and ny: "\<not> starts_with (js ''json'') y"
      and nz: "\<not> starts_with (js ''json'') z" and j: "JSON_parse (x @ y @ z) = Some v"
    from j have "JSON_parse (strip_fences b) = Some v"
      by (simp only: b strip_fences_fenced(2) [OF n nz ny])
    then show "macros_of (parse_output fullText) = v \<and> macros_of (parse_output_text fullText) = v"
      by (rule parsed_macros [OF sp])
  qed
qed

lemma split_on_at_first:
  assumes "count_occ sentinel (a @ butlast sentinel) = 0"
  shows "\<exists>p rest. split_on sentinel (a @ sentinel @ r) = a # p # rest \<and> split_on sentinel r = p # rest"
proof -
  from split_on_nonempty [OF sentinel_nonempty, of r] obtain p rest where
    "split_on sentinel r = p # rest" by (cases "split_on sentinel r") auto
  with split_on_first [OF sentinel_nonempty assms, of r] show ?thesis by simp
qed

lemma summary_at_first:
  assumes "count_occ sentinel (a @ butlast sentinel) = 0"
  shows "summary_of (parse_output (a @ sentinel @ r)) = trim a"
    and "summary_of (parse_output_text (a @ sentinel @ r)) = trim a"
proof -
  from split_on_at_first [OF assms, of r] obtain p rest where
    sp: "split_on sentinel (a @ sentinel @ r) = a # p # rest" by blast
  show "summary_of (parse_output (a @ sentinel @ r)) = trim a"
    unfolding parse_output_two [OF sp] by (simp split: option.split)
  show "summary_of (parse_output_text (a @ sentinel @ r)) = trim a"
    unfolding parse_output_text_two [OF sp] by (simp split: option.split)
qed

lemma split_on_two:
  assumes "count_occ sentinel (a @ butlast sentinel) = 0" and "count_occ sentinel (b @ butlast sentinel) = 0"
  shows "split_on sentinel (a @ sentinel @ b @ sentinel @ x) = a # b # split_on sentinel x"
  using split_on_first [OF sentinel_nonempty assms(1), of "b @ sentinel @ x"]
    split_on_first [OF sentinel_nonempty assms(2), of x]
  by simp

lemma tail_ignored:
  assumes "count_occ sentinel (a @ butlast sentinel) = 0" and "count_occ sentinel (b @ butlast sentinel) = 0"
  shows "parse_output_text (a @ sentinel @ b @ sentinel @ c)
           = parse_output_text (a @ sentinel @ b @ sentinel @ c')"
    and "JSON_parse (trim (strip_fences b)) \<noteq> None \<Longrightarrow>
           parse_output (a @ sentinel @ b @ sentinel @ c) = parse_output (a @ sentinel @ b @ sentinel @ c')"
proof -
  show "parse_output_text (a @ sentinel @ b @ sentinel @ c)
           = parse_output_text (a @ sentinel @ b @ sentinel @ c')"
    unfolding parse_output_text_two [OF split_on_two [OF assms]] ..
  show "parse_output (a @ sentinel @ b @ sentinel @ c) = parse_output (a @ sentinel @ b @ sentinel @ c')"
    if "JSON_parse (trim (strip_fences b)) \<noteq> None"
    using that unfolding parse_output_two [OF split_on_two [OF assms]] by auto
qed

lemma overlap_parse:
  assumes "count_occ sentinel (a @ butlast sentinel) = 0"
    and "0 < d" and "d < length sentinel" and "starts_with sentinel (drop d (sentinel @ r))"
  shows "parse_output_text (a @ sentinel @ r)
           = \<lparr>summary_of = trim a, macros_of = default_macros, logged = [js ''JSON Parse Error'']\<rparr>"
    and "parse_output (a @ sentinel @ r)
           = \<lparr>summary_of = trim a,
              macros_of =
                (case calories_match (a @ sentinel @ r) of
                   Some ds \<Rightarrow> set_prop default_macros (js ''calories'') (JNum (parseInt ds))
                 | None \<Rightarrow> default_macros),
              logged = [js ''JSON Parse Error'']\<rparr>"
proof -
  from split_on_at_first [OF assms(1), of r] obtain p rest where
    sp: "split_on sentinel (a @ sentinel @ r) = a # p # rest" and spr: "split_on sentinel r = p # rest"
    by blast
  have n: "JSON_parse (trim (strip_fences p)) = None"
    by (rule overlap_piece_unparsable [OF assms(2-4) spr])
  show "parse_output_text (a @ sentinel @ r)
           = \<lparr>summary_of = trim a, macros_of = default_macros, logged = [js ''JSON Parse Error'']\<rparr>"
    unfolding parse_output_text_two [OF sp] n by simp
  show "parse_output (a @ sentinel @ r)
           = \<lparr>summary_of = trim a,
              macros_of =
                (case calories_match (a @ sentinel @ r) of
                   Some ds \<Rightarrow> set_prop default_macros (js ''calories'') (JNum (parseInt ds))
                 | None \<Rightarrow> default_macros),
              logged = [js ''JSON Parse Error'']\<rparr>"
    unfolding parse_output_two [OF sp] n by simp
qed

section \<open>Facts about \<open>loadHistory\<close> and the rows\<close>

lemma run_select_history:
  "run_select history_query rows = take 20 (rev (sort_key created_at rows))"
  by (simp add: run_select_def history_query_def)

lemma run_select_length: "length (run_select history_query rows) \<le> 20"
  by (simp add: run_select_history)

lemma run_select_newest_first:
  "sorted_wrt (\<lambda>r r'. created_at r' \<le> created_at r) (run_select history_query rows)"
proof -
  have "sorted_wrt (\<lambda>r r'. created_at r \<le> created_at r') (sort_key created_at rows)"
    using sorted_sort_key [of created_at rows] by (simp add: sorted_wrt_map)
  then have "sorted_wrt (\<lambda>r r'. created_at r' \<le> created_at r) (rev (sort_key created_at rows))"
    by (simp add: sorted_wrt_rev)
  then show ?thesis
    unfolding run_select_history by (rule sorted_wrt_take)
qed

lemma run_select_strict:
  assumes "distinct (map created_at rows)"
  shows "sorted_wrt (\<lambda>r r'. created_at r' < created_at r) (run_select history_query rows)"
proof -
  from assms have "distinct (map created_at (sort_key created_at rows))"
    by (simp add: distinct_map)
  with sorted_sort_key [of created_at rows]
  have "sorted_wrt (<) (map created_at (sort_key created_at rows))"
    by (simp add: strict_sorted_iff)
  then have "sorted_wrt (\<lambda>r r'. created_at r < created_at r') (sort_key created_at rows)"
    by (simp add: sorted_wrt_map)
  then have "sorted_wrt (\<lambda>r r'. created_at r' < created_at r) (rev (sort_key created_at rows))"
    by (simp add: sorted_wrt_rev)
  then show ?thesis
    unfolding run_select_history by (rule sorted_wrt_take)
qed

lemma run_select_subset: "set (run_select history_query rows) \<subseteq> set rows"
  using set_take_subset [of 20 "rev (sort_key created_at rows)"]
  by (simp add: run_select_history)

lemma timestamp_from_row: "timestamp (from_row r) = Some (created_at r)"
  by (simp add: from_row_def)

lemma loadHistory_trace:
  "trace (loadHistory e w) =
     trace w @ StoreSelect history_query #
       (case select_error e of None \<Rightarrow> [] | Some err \<Rightarrow> [ConsoleError (js ''Supabase Load Error:'')])"
  by (simp add: loadHistory_def emit_def Let_def split: option.split)

lemma loadHistory_history:
  "history (ui (loadHistory e w)) =
     (case select_error e of
        None \<Rightarrow> map from_row (run_select history_query (table w))
      | Some err \<Rightarrow> history (ui w))"
  by (simp add: loadHistory_def emit_def Let_def split: option.split)

lemma loadHistory_keeps:
  "table (loadHistory e w) = table w"
  "result (ui (loadHistory e w)) = result (ui w)"
  "loading (ui (loadHistory e w)) = loading (ui w)"
  "loadingStep (ui (loadHistory e w)) = loadingStep (ui w)"
  by (simp_all add: loadHistory_def emit_def Let_def split: option.split)

lemma macro_keys_distinct: "distinct macro_keys"
  by (simp add: macro_keys_def js_def)

lemma macro_set_row:
  "macro_set (JObj [(js ''calories'', c), (js ''protein'', p), (js ''fat'', f), (js ''carbs'', cb)])
     = [Inr c, Inr p, Inr f, Inr cb]"
  by (simp add: macro_set_def macro_keys_def js_def)

lemma history_insert_Inr:
  assumes "history_insert foodName summ preview mac = Inr r"
  shows "row_name r = foodName" "row_summary r = summ" "image_url r = preview"
    "macro_set mac = [Inr (calories r), Inr (protein r), Inr (fat r), Inr (carbs r)]"
  using assms
  by (auto simp: history_insert_def macro_set_def macro_keys_def split: sum.splits)

section \<open>Facts about the handlers\<close>

lemma persist_trace: "trace (persist e r w) = trace w @ persist_events e r"
  by (simp add: persist_def persist_events_def emit_def Let_def loadHistory_trace split: option.split)

lemma persist_ui:
  "result (ui (persist e r w)) = result (ui w)"
  "insert_error e r \<noteq> None \<Longrightarrow> ui (persist e r w) = ui w"
  "insert_error e r \<noteq> None \<Longrightarrow> table (persist e r w) = table w"
  "insert_error e r = None \<Longrightarrow> table (persist e r w) = table w @ [stored_as (new_id e) (now e) r]"
  by (auto simp: persist_def emit_def Let_def loadHistory_keeps split: option.split)

lemma try_outcome_normal:
  assumes "trace w' = trace w @ pre @ persist_events e r" and "list_all quiet pre"
    and "result (ui w') = Some x" and "shows_row x r"
    and "if insert_error e r = None then table w' = table w @ [stored_as (new_id e) (now e) r]
         else table w' = table w \<and> history (ui w') = history (ui w)"
  shows "try_outcome e w None w'"
  unfolding try_outcome_def using assms by (simp split del: if_split) blast

lemma quiet_logs: "list_all quiet (map ConsoleError ls)"
  by (induction ls) auto

lemma analyze_finish_outcome:
  assumes "analyze_finish e foodName preview resp w = (thrown, w')"
  shows "try_outcome e w thrown w'"
proof -
  define parsed where "parsed = parse_output (full_text_of resp)"
  define chunks where "chunks = (case groundingChunks resp of None \<Rightarrow> [] | Some cs \<Rightarrow> cs)"
  define w4 where "w4 = emit_all (map ConsoleError (logged parsed)) w"
  have w4: "trace w4 = trace w @ map ConsoleError (logged parsed)" "table w4 = table w" "ui w4 = ui w"
    by (simp_all add: w4_def emit_all_def)
  show ?thesis
  proof (cases "map_web chunks")
    case (Inl err)
    with assms have "thrown = Some JsTypeError" "w' = w4"
      by (simp_all add: analyze_finish_def Let_def parsed_def chunks_def w4_def)
    with w4 quiet_logs [of "logged parsed"] show ?thesis
      unfolding try_outcome_def by auto
  next
    case (Inr webs)
    define x where "x = newAnalysis foodName (summary_of parsed) (macros_of parsed) preview (filter truthy webs)"
    define w5 where "w5 = setResult x w4"
    have w5: "trace w5 = trace w4" "table w5 = table w4" "history (ui w5) = history (ui w4)"
      "result (ui w5) = Some x"
      by (simp_all add: w5_def setResult_def)
    show ?thesis
    proof (cases "history_insert foodName (summary_of parsed) preview (macros_of parsed)")
      case (Inl err)
      with assms Inr have "thrown = Some JsTypeError" "w' = w5"
        by (simp_all add: analyze_finish_def Let_def parsed_def chunks_def w4_def w5_def x_def)
      with w4 w5 quiet_logs [of "logged parsed"] show ?thesis
        unfolding try_outcome_def by auto
    next
      case r: (Inr r)
      with assms Inr have t: "thrown = None" and w': "w' = persist e r w5"
        by (simp_all add: analyze_finish_def Let_def parsed_def chunks_def w4_def w5_def x_def)
      have sh: "shows_row x r"
        using history_insert_Inr [OF r] by (simp add: shows_row_def x_def newAnalysis_def)
      have tr: "trace w' = trace w @ map ConsoleError (logged parsed) @ persist_events e r"
        by (simp add: w' persist_trace w5 w4)
      have res: "result (ui w') = Some x"
        by (simp add: w' persist_ui w5)
      have st: "if insert_error e r = None then table w' = table w @ [stored_as (new_id e) (now e) r]
                else table w' = table w \<and> history (ui w') = history (ui w)"
        by (simp add: w' persist_ui w5 w4)
      from try_outcome_normal [OF tr quiet_logs res sh st] t show ?thesis
        by simp
    qed
  qed
qed

lemma try_outcome_after:
  assumes "try_outcome e w1 thrown w'" and "trace w1 = trace w @ pre0" and "list_all quiet pre0"
    and "table w1 = table w" and "history (ui w1) = history (ui w)"
  shows "try_outcome e w thrown w'"
proof -
  from assms(1) obtain pre where pre: "list_all quiet pre" and
    c: "if thrown \<noteq> None then
           trace w' = trace w1 @ pre \<and> table w' = table w1 \<and> history (ui w') = history (ui w1)
         else
           (\<exists>r x. trace w' = trace w1 @ pre @ persist_events e r
              \<and> result (ui w') = Some x \<and> shows_row x r
              \<and> (if insert_error e r = None then table w' = table w1 @ [stored_as (new_id e) (now e) r]
                  else table w' = table w1 \<and> history (ui w') = history (ui w1)))"
    unfolding try_outcome_def by blast
  have q: "list_all quiet (pre0 @ pre)" using pre assms(3) by simp
  from c assms(2,4,5) have
    "if thrown \<noteq> None then
           trace w' = trace w @ (pre0 @ pre) \<and> table w' = table w \<and> history (ui w') = history (ui w)
         else
           (\<exists>r x. trace w' = trace w @ (pre0 @ pre) @ persist_events e r
              \<and> result (ui w') = Some x \<and> shows_row x r
              \<and> (if insert_error e r = None then table w' = table w @ [stored_as (new_id e) (now e) r]
                  else table w' = table w \<and> history (ui w') = history (ui w)))"
    by (auto split: if_splits)
  with q show ?thesis unfolding try_outcome_def by blast
qed

lemma try_outcome_thrown:
  assumes "trace w' = trace w @ pre" "list_all quiet pre" "table w' = table w"
    "history (ui w') = history (ui w)"
  shows "try_outcome e w (Some x) w'"
  using assms unfolding try_outcome_def by auto

lemma analyze_research_outcome:
  assumes "analyze_research e preview resp w = (thrown, w')"
  shows "try_outcome e w thrown w'"
proof -
  define foodName where "foodName = food_name_of resp"
  define w3 where "w3 = emit (AiRequest (analysis_request (analysis_prompt foodName)))
                          (setLoadingStep (js ''Analyzing '' @ foodName @ js ''...'') w)"
  have w3: "trace w3 = trace w @ [AiRequest (analysis_request (analysis_prompt foodName))]"
    "table w3 = table w" "history (ui w3) = history (ui w)"
    by (simp_all add: w3_def emit_def setLoadingStep_def)
  show ?thesis
  proof (cases "generateContent e (analysis_request (analysis_prompt foodName))")
    case (Inl msg)
    with assms have "thrown = Some (ServiceError msg)" "w' = w3"
      by (simp_all add: analyze_research_def Let_def foodName_def w3_def)
    with w3 show ?thesis by (auto intro!: try_outcome_thrown)
  next
    case (Inr resp2)
    with assms have "analyze_finish e foodName preview resp2 w3 = (thrown, w')"
      by (simp add: analyze_research_def Let_def foodName_def w3_def)
    from analyze_finish_outcome [OF this] w3 show ?thesis
      by (auto intro: try_outcome_after)
  qed
qed

lemma handleAnalyze_try_outcome:
  assumes "handleAnalyze_try e f preview w = (thrown, w')"
  shows "try_outcome e w thrown w'"
proof (cases "fileToGenerativePart e f")
  case (Inl x)
  with assms have "thrown = Some x" "w' = w" by (simp_all add: handleAnalyze_try_def)
  then show ?thesis by (auto intro!: try_outcome_thrown [where pre = "[]"])
next
  case (Inr base64Data)
  define w1 where "w1 = emit (AiRequest (identify_request f base64Data)) w"
  have w1: "trace w1 = trace w @ [AiRequest (identify_request f base64Data)]"
    "table w1 = table w" "history (ui w1) = history (ui w)"
    by (simp_all add: w1_def emit_def)
  show ?thesis
  proof (cases "generateContent e (identify_request f base64Data)")
    case (Inl msg)
    with assms Inr have "thrown = Some (ServiceError msg)" "w' = w1"
      by (simp_all add: handleAnalyze_try_def Let_def w1_def)
    with w1 show ?thesis by (auto intro!: try_outcome_thrown)
  next
    case r: (Inr resp)
    with assms Inr have "analyze_research e preview resp w1 = (thrown, w')"
      by (simp add: handleAnalyze_try_def Let_def w1_def)
    from analyze_research_outcome [OF this] w1 show ?thesis
      by (auto intro: try_outcome_after)
  qed
qed

lemma run_events_append: "trace w' = trace w @ es \<Longrightarrow> run_events w w' = es"
  by (simp add: run_events_def)

lemma handleAnalyze_guard:
  assumes "file_s (ui w) = None \<or> imagePreview (ui w) = None \<or> imagePreview (ui w) = Some []"
  shows "handleAnalyze e w = w"
  using assms by (auto simp: handleAnalyze_def split: option.splits)

text \<open>A run of \<open>handleAnalyze\<close> that passes the guard: its events, and what it leaves.\<close>

lemma handleAnalyze_shape:
  assumes "file_s (ui w) = Some f" and "imagePreview (ui w) = Some preview" and "preview \<noteq> []"
  shows "\<exists>pre. list_all quiet pre \<and>
           ((run_events w (handleAnalyze e w) = pre @ analyze_alert
               \<and> table (handleAnalyze e w) = table w
               \<and> history (ui (handleAnalyze e w)) = history (ui w))
            \<or> (\<exists>r x. run_events w (handleAnalyze e w) = pre @ persist_events e r
                 \<and> result (ui (handleAnalyze e w)) = Some x \<and> shows_row x r
                 \<and> (if insert_error e r = None
                     then table (handleAnalyze e w) = table w @ [stored_as (new_id e) (now e) r]
                     else table (handleAnalyze e w) = table w
                          \<and> history (ui (handleAnalyze e w)) = history (ui w))))"
proof -
  define w1 where "w1 = setLoadingStep (js ''Identifying food...'') (setLoading True w)"
  have w1: "trace w1 = trace w" "table w1 = table w" "history (ui w1) = history (ui w)"
    by (simp_all add: w1_def setLoadingStep_def setLoading_def)
  obtain thrown w2 where t: "handleAnalyze_try e f preview w1 = (thrown, w2)"
    by (cases "handleAnalyze_try e f preview w1")
  define w3 where "w3 = (case thrown of None \<Rightarrow> w2 | Some x \<Rightarrow> emit_all analyze_alert w2)"
  have out: "handleAnalyze e w = setLoadingStep [] (setLoading False w3)"
    using assms t
    by (simp add: handleAnalyze_def Let_def w1_def w3_def emit_all_def emit_def analyze_alert_def
        split: option.split)
  have keep: "trace (handleAnalyze e w) = trace w3" "table (handleAnalyze e w) = table w3"
    "history (ui (handleAnalyze e w)) = history (ui w3)"
    "result (ui (handleAnalyze e w)) = result (ui w3)"
    by (simp_all add: out setLoadingStep_def setLoading_def)
  from handleAnalyze_try_outcome [OF t] obtain pre where q: "list_all quiet pre" and
    c: "if thrown \<noteq> None then
           trace w2 = trace w1 @ pre \<and> table w2 = table w1 \<and> history (ui w2) = history (ui w1)
         else
           (\<exists>r x. trace w2 = trace w1 @ pre @ persist_events e r
              \<and> result (ui w2) = Some x \<and> shows_row x r
              \<and> (if insert_error e r = None then table w2 = table w1 @ [stored_as (new_id e) (now e) r]
                  else table w2 = table w1 \<and> history (ui w2) = history (ui w1)))"
    unfolding try_outcome_def by blast
  show ?thesis
  proof (cases thrown)
    case (Some x)
    with c have "trace w3 = trace w @ pre @ analyze_alert" "table w3 = table w"
      "history (ui w3) = history (ui w)"
      by (simp_all add: w3_def emit_all_def w1)
    with q keep show ?thesis
      by (auto simp: run_events_def intro!: exI [of _ pre])
  next
    case None
    with c obtain r x where "trace w3 = trace w @ pre @ persist_events e r"
      "result (ui w3) = Some x" "shows_row x r"
      "if insert_error e r = None then table w3 = table w @ [stored_as (new_id e) (now e) r]
       else table w3 = table w \<and> history (ui w3) = history (ui w)"
      by (auto simp: w3_def w1 split: if_splits)
    with keep have
      "run_events w (handleAnalyze e w) = pre @ persist_events e r
         \<and> result (ui (handleAnalyze e w)) = Some x \<and> shows_row x r
         \<and> (if insert_error e r = None
             then table (handleAnalyze e w) = table w @ [stored_as (new_id e) (now e) r]
             else table (handleAnalyze e w) = table w
                  \<and> history (ui (handleAnalyze e w)) = history (ui w))"
      by (auto simp: run_events_def split: if_splits)
    with q show ?thesis by blast
  qed
qed

lemma quiet_no_store:
  assumes "list_all quiet pre"
  shows "StoreInsert r \<notin> set pre" "StoreSelect s \<notin> set pre" "Alert m \<notin> set pre"
    "filter is_alert pre = []" "filter is_select pre = []" "filter is_insert pre = []"
  using assms by (induction pre; auto elim: quiet.elims)+

lemma analyze_alert_no_store:
  "StoreInsert r \<notin> set analyze_alert" "StoreSelect s \<notin> set analyze_alert"
  by (simp_all add: analyze_alert_def)

lemma persist_events_facts:
  "filter is_alert (persist_events e r) = []"
  "filter is_insert (persist_events e r) = [StoreInsert r]"
  "StoreInsert r' \<in> set (persist_events e r) \<longleftrightarrow> r' = r"
  "StoreSelect s \<in> set (persist_events e r) \<longleftrightarrow> s = history_query \<and> insert_error e r = None"
  "insert_error e r \<noteq> None \<Longrightarrow> filter is_select (persist_events e r) = []"
  "insert_error e r \<noteq> None \<Longrightarrow> ConsoleError (js ''Supabase Save Error:'') \<in> set (persist_events e r)"
  by (auto simp: persist_events_def split: option.splits)

lemma run_events_self: "run_events w w = []"
  by (simp add: run_events_def)

text \<open>A run of \<open>handleAnalyze\<close> that passes the guard and alerts nothing inserts once.\<close>

lemma handleAnalyze_inserts_once:
  assumes "file_s (ui w) = Some f" and "imagePreview (ui w) = Some preview" and "preview \<noteq> []"
    and "filter is_alert (run_events w (handleAnalyze e w)) = []"
  shows "\<exists>r. filter is_insert (run_events w (handleAnalyze e w)) = [StoreInsert r]"
proof -
  from handleAnalyze_shape [OF assms(1-3), of e] obtain pre where q: "list_all quiet pre" and
    c: "run_events w (handleAnalyze e w) = pre @ analyze_alert
        \<or> (\<exists>r. run_events w (handleAnalyze e w) = pre @ persist_events e r)"
    by blast
  from c show ?thesis
  proof
    assume "run_events w (handleAnalyze e w) = pre @ analyze_alert"
    with assms(4) show ?thesis by (simp add: analyze_alert_def)
  next
    assume "\<exists>r. run_events w (handleAnalyze e w) = pre @ persist_events e r"
    then obtain r where "run_events w (handleAnalyze e w) = pre @ persist_events e r" by blast
    then have "filter is_insert (run_events w (handleAnalyze e w)) = [StoreInsert r]"
      by (simp add: quiet_no_store [OF q] persist_events_facts)
    then show ?thesis by blast
  qed
qed

text \<open>\<open>handleTextAnalyze\<close>, run by run.\<close>

lemma handleTextAnalyze_guard:
  assumes "searchText (ui w) = [] \<or> trim (searchText (ui w)) = []"
  shows "handleTextAnalyze e w = w"
  using assms by (auto simp: handleTextAnalyze_def)

lemma handleTextAnalyze_run:
  assumes "searchText (ui w) \<noteq> []" and "trim (searchText (ui w)) \<noteq> []"
  shows "table (handleTextAnalyze e w) = table w"
    and "history (ui (handleTextAnalyze e w)) = history (ui w)"
    and "run_events w (handleTextAnalyze e w) =
          AiRequest (analysis_request (text_prompt (trim (searchText (ui w))))) #
            (case generateContent e (analysis_request (text_prompt (trim (searchText (ui w))))) of
               Inl msg \<Rightarrow> text_alert
             | Inr resp \<Rightarrow> map ConsoleError (logged (parse_output_text (full_text_of resp))))"
    and "result (ui (handleTextAnalyze e w)) =
          (case generateContent e (analysis_request (text_prompt (trim (searchText (ui w))))) of
               Inl msg \<Rightarrow> result (ui w)
             | Inr resp \<Rightarrow>
                 Some \<lparr>id_r = None, name = trim (searchText (ui w)),
                       summary = summary_of (parse_output_text (full_text_of resp)),
                       macros = macros_of (parse_output_text (full_text_of resp)),
                       imageUrl = None, timestamp = None, sources = Some []\<rparr>)"
  using assms
  by (simp_all add: handleTextAnalyze_def handleTextAnalyze_try_def Let_def run_events_def
      emit_def emit_all_def setLoading_def setLoadingStep_def setResult_def text_alert_def
      split: sum.split)

lemma handleTextAnalyze_never_stores:
  "filter is_insert (run_events w (handleTextAnalyze e w)) = []
   \<and> filter is_select (run_events w (handleTextAnalyze e w)) = []
   \<and> table (handleTextAnalyze e w) = table w"
proof (cases "searchText (ui w) = [] \<or> trim (searchText (ui w)) = []")
  case True
  then show ?thesis by (simp add: handleTextAnalyze_guard run_events_self)
next
  case False
  then have g: "searchText (ui w) \<noteq> []" "trim (searchText (ui w)) \<noteq> []" by simp_all
  have "filter is_insert (map ConsoleError ls) = []" "filter is_select (map ConsoleError ls) = []" for ls
    by (induction ls) auto
  then show ?thesis
    by (simp add: handleTextAnalyze_run [OF g] text_alert_def split: sum.split)
qed

lemma setLoading_twice: "setLoading c (setLoading b w) = setLoading c w"
  by (simp add: setLoading_def)

lemma handleTextAnalyze_setLoading:
  "run_events (setLoading b w) (handleTextAnalyze e (setLoading b w)) = run_events w (handleTextAnalyze e w)"
proof (cases "searchText (ui w) = [] \<or> trim (searchText (ui w)) = []")
  case True
  then have "searchText (ui (setLoading b w)) = [] \<or> trim (searchText (ui (setLoading b w))) = []"
    by (simp add: setLoading_def)
  with True show ?thesis by (simp add: handleTextAnalyze_guard run_events_self)
next
  case False
  then have "handleTextAnalyze e (setLoading b w) = handleTextAnalyze e w"
    by (simp add: handleTextAnalyze_def Let_def setLoading_twice) (simp add: setLoading_def)
  then show ?thesis by (simp add: run_events_def setLoading_def)
qed

lemma handleAnalyze_setLoading:
  "run_events (setLoading b w) (handleAnalyze e (setLoading b w)) = run_events w (handleAnalyze e w)"
proof (cases "file_s (ui w) = None \<or> imagePreview (ui w) = None \<or> imagePreview (ui w) = Some []")
  case True
  then have "file_s (ui (setLoading b w)) = None \<or> imagePreview (ui (setLoading b w)) = None
      \<or> imagePreview (ui (setLoading b w)) = Some []"
    by (simp add: setLoading_def)
  with True show ?thesis by (simp add: handleAnalyze_guard run_events_self)
next
  case False
  then obtain f preview where g: "file_s (ui w) = Some f" "imagePreview (ui w) = Some preview" "preview \<noteq> []"
    by auto
  then have g': "file_s (ui (setLoading b w)) = Some f" "imagePreview (ui (setLoading b w)) = Some preview"
    by (simp_all add: setLoading_def)
  have "handleAnalyze e (setLoading b w) = handleAnalyze e w"
    using g g' by (simp add: handleAnalyze_def Let_def setLoading_twice)
  then show ?thesis by (simp add: run_events_def setLoading_def)
qed

section \<open>The example run\<close>

lemma demo_split:
  \<open>split_on sentinel demo_text =
    [js ''A sweet tropical fruit...\<newline>\<newline>'',
     js ''\<newline>{"calories":105,"protein":1,"fat":0,"carbs":27}'']\<close>
  unfolding demo_text_def by code_simp

lemma demo_json:
  \<open>JSON_parse (trim (strip_fences (js ''\<newline>{"calories":105,"protein":1,"fat":0,"carbs":27}''))) = Some demo_macros\<close>
proof -
  have \<open>trim (strip_fences (js ''\<newline>{"calories":105,"protein":1,"fat":0,"carbs":27}''))
          = js ''{"calories":105,"protein":1,"fat":0,"carbs":27}''\<close>
    by (simp add: trim_def is_ws_def js_def fence_def)
  moreover have \<open>JSON_parse (js ''{"calories":105,"protein":1,"fat":0,"carbs":27}'') = Some demo_macros\<close>
    unfolding demo_macros_def by code_simp
  ultimately show ?thesis by (simp only:)
qed

lemma demo_trim:
  "trim (js ''A sweet tropical fruit...\<newline>\<newline>'') = js ''A sweet tropical fruit...''"
  "trim (js ''banana'') = js ''banana''"
  by (simp_all add: trim_def is_ws_def js_def)

lemma demo_parse:
  "parse_output demo_text =
     \<lparr>summary_of = js ''A sweet tropical fruit...'', macros_of = demo_macros, logged = []\<rparr>"
  "parse_output_text demo_text =
     \<lparr>summary_of = js ''A sweet tropical fruit...'', macros_of = demo_macros, logged = []\<rparr>"
  by (simp_all add: parse_output_two [OF demo_split] parse_output_text_two [OF demo_split]
      demo_json demo_trim)

lemma demo_base64: "fileToGenerativePart (demo_env se) demo_file = Inr (Some (js ''AAAA''))"
proof -
  have "split_on (js '','') demo_preview = [js ''data:image/jpeg;base64'', js ''AAAA'']"
    unfolding demo_preview_def by code_simp
  then show ?thesis
    by (simp add: fileToGenerativePart_def demo_env_def)
qed

lemma demo_insert:
  "history_insert (js ''banana'') (js ''A sweet tropical fruit...'') demo_preview demo_macros = Inr demo_row"
  by (simp add: history_insert_def demo_macros_def demo_row_def js_def)

lemma demo_nonblank: "js ''banana'' \<noteq> []"
  by (simp add: js_def)

lemma demo_preview_nonempty: "demo_preview \<noteq> []"
  by (simp add: demo_preview_def js_def)

lemma demo_handleAnalyze:
  "run_events demo_world (handleAnalyze (demo_env se) demo_world) =
     [AiRequest (identify_request demo_file (Some (js ''AAAA''))),
      AiRequest (analysis_request (analysis_prompt (js ''banana'')))]
     @ persist_events (demo_env se) demo_row"
proof -
  have g: "generateContent (demo_env se) (identify_request demo_file d)
             = Inr \<lparr>first_text = Some (js ''banana''), groundingChunks = None\<rparr>"
    "generateContent (demo_env se) (analysis_request p)
             = Inr \<lparr>first_text = Some demo_text, groundingChunks = None\<rparr>" for d p
    by (simp_all add: demo_env_def identify_request_def analysis_request_def)
  have fn: "food_name_of \<lparr>first_text = Some (js ''banana''), groundingChunks = None\<rparr> = js ''banana''"
    by (simp add: food_name_of_def demo_trim demo_nonblank)
  have fin: "trace (snd (analyze_finish (demo_env se) (js ''banana'') demo_preview
                 \<lparr>first_text = Some demo_text, groundingChunks = None\<rparr> w))
               = trace w @ persist_events (demo_env se) demo_row" for w
    by (simp add: analyze_finish_def Let_def full_text_of_def demo_parse emit_all_def
        demo_insert persist_trace setResult_def)
  have res: "trace (snd (analyze_research (demo_env se) demo_preview
                 \<lparr>first_text = Some (js ''banana''), groundingChunks = None\<rparr> w))
               = trace w @ AiRequest (analysis_request (analysis_prompt (js ''banana'')))
                   # persist_events (demo_env se) demo_row" for w
    by (simp add: analyze_research_def Let_def fn g fin emit_def setLoadingStep_def)
  have tr: "trace (snd (handleAnalyze_try (demo_env se) demo_file demo_preview w))
               = trace w @ AiRequest (identify_request demo_file (Some (js ''AAAA'')))
                   # AiRequest (analysis_request (analysis_prompt (js ''banana'')))
                   # persist_events (demo_env se) demo_row" for w
    by (simp add: handleAnalyze_try_def Let_def demo_base64 g res emit_def)
  have thrown: "fst (handleAnalyze_try (demo_env se) demo_file demo_preview w) = None" for w
    by (simp add: handleAnalyze_try_def analyze_research_def analyze_finish_def Let_def
        demo_base64 g fn full_text_of_def demo_parse demo_insert)
  define w1 where "w1 = setLoadingStep (js ''Identifying food...'') (setLoading True demo_world)"
  obtain th w2 where t: "handleAnalyze_try (demo_env se) demo_file demo_preview w1 = (th, w2)"
    by (cases "handleAnalyze_try (demo_env se) demo_file demo_preview w1")
  from thrown [of w1] t have th: "th = None" by simp
  from tr [of w1] t have w2: "trace w2 = AiRequest (identify_request demo_file (Some (js ''AAAA'')))
                   # AiRequest (analysis_request (analysis_prompt (js ''banana'')))
                   # persist_events (demo_env se) demo_row"
    by (simp add: w1_def setLoadingStep_def setLoading_def demo_world_def)
  have g1: "file_s (ui demo_world) = Some demo_file" "imagePreview (ui demo_world) = Some demo_preview"
    by (simp_all add: demo_world_def)
  have "handleAnalyze (demo_env se) demo_world = setLoadingStep [] (setLoading False w2)"
    using t th g1 demo_preview_nonempty
    by (simp add: handleAnalyze_def Let_def w1_def)
  then have "trace (handleAnalyze (demo_env se) demo_world) = trace w2"
    by (simp add: setLoadingStep_def setLoading_def)
  with w2 show ?thesis
    by (simp add: run_events_def demo_world_def)
qed

lemma demo_search:
  "searchText (ui (setLoading b demo_world)) = js ''banana''"
  "searchText (ui demo_world) = js ''banana''"
  by (simp_all add: demo_world_def setLoading_def)

lemma demo_text_response:
  "generateContent (demo_env se) (analysis_request p)
     = Inr \<lparr>first_text = Some demo_text, groundingChunks = None\<rparr>"
  by (simp add: demo_env_def analysis_request_def)

lemma demo_store:
  "insert_error (demo_env se) r = se" "select_error (demo_env se) = None"
  by (simp_all add: demo_env_def)

lemma demo_handleTextAnalyze:
  "run_events demo_world (handleTextAnalyze (demo_env se) demo_world)
     = [AiRequest (analysis_request (text_prompt (js ''banana'')))]"
  "result (ui (handleTextAnalyze (demo_env se) demo_world))
     = Some \<lparr>id_r = None, name = js ''banana'', summary = js ''A sweet tropical fruit...'',
             macros = demo_macros, imageUrl = None, timestamp = None, sources = Some []\<rparr>"
  "table (handleTextAnalyze (demo_env se) demo_world) = []"
proof -
  have g: "searchText (ui demo_world) \<noteq> []" "trim (searchText (ui demo_world)) \<noteq> []"
    by (simp_all add: demo_search demo_trim demo_nonblank)
  show "run_events demo_world (handleTextAnalyze (demo_env se) demo_world)
     = [AiRequest (analysis_request (text_prompt (js ''banana'')))]"
    by (simp add: handleTextAnalyze_run(3) [OF g] demo_search demo_trim demo_text_response
        full_text_of_def demo_parse)
  show "result (ui (handleTextAnalyze (demo_env se) demo_world))
     = Some \<lparr>id_r = None, name = js ''banana'', summary = js ''A sweet tropical fruit...'',
             macros = demo_macros, imageUrl = None, timestamp = None, sources = Some []\<rparr>"
    by (simp add: handleTextAnalyze_run(4) [OF g] demo_search demo_trim demo_text_response
        full_text_of_def demo_parse)
  show "table (handleTextAnalyze (demo_env se) demo_world) = []"
    by (simp add: handleTextAnalyze_run(1) [OF g]) (simp add: demo_world_def)
qed

lemma click_start_analysis_loading: "loading (ui w) \<Longrightarrow> click_start_analysis e w = w"
  by (simp add: click_start_analysis_def)

lemma demo_loading:
  "loading (ui (setLoading True demo_world))" "result (ui (setLoading True demo_world)) = None"
  by (simp_all add: setLoading_def demo_world_def)

section \<open>The claims\<close>

text \<open>
  C3. For every AI response text that does not contain the sentinel, the parse step of
  either handler gives the full raw text, untrimmed, as the summary, and the default
  macro object, whose four fields are 0 (and logs nothing).
\<close>

theorem no_sentinel_summary_is_text:
  assumes "count_occ sentinel fullText = 0"
  shows "parse_output fullText = \<lparr>summary_of = fullText, macros_of = default_macros, logged = []\<rparr>
       \<and> parse_output_text fullText = \<lparr>summary_of = fullText, macros_of = default_macros, logged = []\<rparr>
       \<and> macro_set (macros_of (parse_output fullText)) = [Inr (JNum 0), Inr (JNum 0), Inr (JNum 0), Inr (JNum 0)]
       \<and> macro_set (macros_of (parse_output_text fullText)) = [Inr (JNum 0), Inr (JNum 0), Inr (JNum 0), Inr (JNum 0)]"
  using split_on_no_occ [OF sentinel_nonempty assms]
  by (simp add: parse_output_def parse_output_text_def macro_set_default)

theorem no_sentinel_summary_is_text_witness:
  "count_occ sentinel (js ''Some text without marker'') = 0
   \<and> summary_of (parse_output (js ''Some text without marker'')) = js ''Some text without marker''
   \<and> macros_of (parse_output (js ''Some text without marker'')) = default_macros
   \<and> summary_of (parse_output_text (js ''Some text without marker'')) = js ''Some text without marker''
   \<and> macros_of (parse_output_text (js ''Some text without marker'')) = default_macros"
proof -
  have h: "count_occ sentinel (js ''Some text without marker'') = 0"
    by (simp add: sentinel_def js_def)
  from no_sentinel_summary_is_text [OF h] h show ?thesis by simp
qed

text \<open>
  C1. For every AI response text that contains the sentinel exactly once, at the end of
  \<open>a\<close> and before \<open>b\<close>, the parse step of either handler gives \<open>a\<close> trimmed as the
  summary, and as the macro object the value \<open>JSON.parse\<close> makes of \<open>b\<close> with the fence
  markup stripped, whenever that text parses. The handlers trim the stripped text
  before they parse it; the value is the same, read either way. The stripping, in
  terms of \<open>b\<close> alone: the text parsed holds no fence; a \<open>b\<close> with no backquote is parsed
  as it is; and a \<open>b\<close> whose only backquotes are an opening fence, followed by \<open>json\<close>
  or not, and a closing fence, around \<open>y\<close> and between \<open>x\<close> and \<open>z\<close>, is parsed as
  \<open>x @ y @ z\<close>.
\<close>

theorem sentinel_once_summary_and_macros:
  assumes "fullText = a @ sentinel @ b" and "count_occ sentinel fullText = 1"
  shows "summary_of (parse_output fullText) = trim a
       \<and> summary_of (parse_output_text fullText) = trim a
       \<and> (\<forall>v. JSON_parse (strip_fences b) = Some v \<longrightarrow>
              macros_of (parse_output fullText) = v \<and> macros_of (parse_output_text fullText) = v)
       \<and> (\<forall>v. JSON_parse (trim (strip_fences b)) = Some v \<longrightarrow>
              macros_of (parse_output fullText) = v \<and> macros_of (parse_output_text fullText) = v)
       \<and> count_occ fence (strip_fences b) = 0
       \<and> (\<forall>v. 96 \<notin> set b \<and> JSON_parse b = Some v \<longrightarrow>
              macros_of (parse_output fullText) = v \<and> macros_of (parse_output_text fullText) = v)
       \<and> (\<forall>x y z v. b = x @ fence @ js ''json'' @ y @ fence @ z \<and> 96 \<notin> set (x @ y @ z)
              \<and> \<not> starts_with (js ''json'') z \<and> JSON_parse (x @ y @ z) = Some v \<longrightarrow>
              macros_of (parse_output fullText) = v \<and> macros_of (parse_output_text fullText) = v)
       \<and> (\<forall>x y z v. b = x @ fence @ y @ fence @ z \<and> 96 \<notin> set (x @ y @ z)
              \<and> \<not> starts_with (js ''json'') y \<and> \<not> starts_with (js ''json'') z
              \<and> JSON_parse (x @ y @ z) = Some v \<longrightarrow>
              macros_of (parse_output fullText) = v \<and> macros_of (parse_output_text fullText) = v)"
proof -
  from assms have sp: "split_on sentinel fullText = a # b # []"
    using split_on_once [OF sentinel_nonempty, of a b] by simp
  have s1: "summary_of (parse_output fullText) = trim a"
    unfolding parse_output_two [OF sp] by (simp split: option.split)
  have s2: "summary_of (parse_output_text fullText) = trim a"
    unfolding parse_output_text_two [OF sp] by (simp split: option.split)
  note M = macros_clauses [OF sp]
  show ?thesis
    by (rule conjI [OF s1 conjI [OF s2 conjI [OF M(1) conjI [OF M(2) conjI [OF M(3)
          conjI [OF M(4) conjI [OF M(5) M(6)]]]]]]])
qed

theorem sentinel_once_summary_and_macros_witness:
  \<open>count_occ sentinel
      (js ''Oatmeal is hearty.\<newline>\<newline>'' @ sentinel @ js ''\<newline>'' @ fence @ js ''json''
         @ js ''\<newline>{"calories":150,"protein":5,"fat":3,"carbs":27}\<newline>'' @ fence) = 1
   \<and> count_occ fence
      (js ''\<newline>'' @ fence @ js ''json''
         @ js ''\<newline>{"calories":150,"protein":5,"fat":3,"carbs":27}\<newline>'' @ fence) = 2
   \<and> 96 \<notin> set (js ''\<newline>'' @ js ''\<newline>{"calories":150,"protein":5,"fat":3,"carbs":27}\<newline>'' @ [])
   \<and> summary_of (parse_output
      (js ''Oatmeal is hearty.\<newline>\<newline>'' @ sentinel @ js ''\<newline>'' @ fence @ js ''json''
         @ js ''\<newline>{"calories":150,"protein":5,"fat":3,"carbs":27}\<newline>'' @ fence))
       = js ''Oatmeal is hearty.''
   \<and> macros_of (parse_output
      (js ''Oatmeal is hearty.\<newline>\<newline>'' @ sentinel @ js ''\<newline>'' @ fence @ js ''json''
         @ js ''\<newline>{"calories":150,"protein":5,"fat":3,"carbs":27}\<newline>'' @ fence))
       = JObj [(js ''calories'', JNum 150), (js ''protein'', JNum 5), (js ''fat'', JNum 3), (js ''carbs'', JNum 27)]
   \<and> macros_of (parse_output_text
      (js ''Oatmeal is hearty.\<newline>\<newline>'' @ sentinel @ js ''\<newline>'' @ fence @ js ''json''
         @ js ''\<newline>{"calories":150,"protein":5,"fat":3,"carbs":27}\<newline>'' @ fence))
       = JObj [(js ''calories'', JNum 150), (js ''protein'', JNum 5), (js ''fat'', JNum 3), (js ''carbs'', JNum 27)]\<close>
proof -
  let ?a = \<open>js ''Oatmeal is hearty.\<newline>\<newline>''\<close>
  let ?x = \<open>js ''\<newline>''\<close>
  let ?y = \<open>js ''\<newline>{"calories":150,"protein":5,"fat":3,"carbs":27}\<newline>''\<close>
  let ?b = "?x @ fence @ js ''json'' @ ?y @ fence"
  let ?t = "?a @ sentinel @ ?b"
  let ?v = \<open>JObj [(js ''calories'', JNum 150), (js ''protein'', JNum 5), (js ''fat'', JNum 3), (js ''carbs'', JNum 27)]\<close>
  have c: "count_occ sentinel ?t = 1" by code_simp
  have f: "count_occ fence ?b = 2" by code_simp
  have b: "?b = ?x @ fence @ js ''json'' @ ?y @ fence @ []" by simp
  have nb: "96 \<notin> set (?x @ ?y @ [])" by (simp add: js_def)
  have nz: "\<not> starts_with (js ''json'') []" by (simp add: js_def)
  have j: "JSON_parse (?x @ ?y @ []) = Some ?v" by code_simp
  have t: "trim ?a = js ''Oatmeal is hearty.''" by (simp add: trim_def is_ws_def js_def)
  note T = sentinel_once_summary_and_macros [OF refl c]
  from T have s: "summary_of (parse_output ?t) = trim ?a" by (rule conjunct1)
  from T have "\<forall>x y z v. ?b = x @ fence @ js ''json'' @ y @ fence @ z \<and> 96 \<notin> set (x @ y @ z)
              \<and> \<not> starts_with (js ''json'') z \<and> JSON_parse (x @ y @ z) = Some v \<longrightarrow>
              macros_of (parse_output ?t) = v \<and> macros_of (parse_output_text ?t) = v"
    by (elim conjE)
  then have "?b = ?x @ fence @ js ''json'' @ ?y @ fence @ [] \<and> 96 \<notin> set (?x @ ?y @ [])
              \<and> \<not> starts_with (js ''json'') [] \<and> JSON_parse (?x @ ?y @ []) = Some ?v \<longrightarrow>
              macros_of (parse_output ?t) = ?v \<and> macros_of (parse_output_text ?t) = ?v"
    by (elim allE)
  with b nb nz j have m: "macros_of (parse_output ?t) = ?v \<and> macros_of (parse_output_text ?t) = ?v"
    by (elim impE) (intro conjI, assumption+)
  from c f nb s [unfolded t] m show ?thesis by (intro conjI) (elim conjE, assumption)+
qed

text \<open>
  C10. For every AI response text with a first occurrence of the sentinel at the end
  of \<open>a\<close> (none starts earlier) and \<open>r\<close> behind it, the summary is \<open>a\<close> trimmed. When
  the sentinel occurs twice or more, the second occurrence either lies wholly behind
  the first, at the end of some \<open>b\<close> in which none starts earlier, or starts inside
  the first. In the first case the macro object is the value \<open>JSON.parse\<close> makes of
  \<open>b\<close> alone, fences stripped (the stripping as in C1), and what follows the second
  occurrence has no part in the structured parse: in \<open>handleTextAnalyze\<close> the whole
  result is the same for any text \<open>c'\<close> in its place, and in \<open>handleAnalyze\<close> it is the
  same whenever \<open>b\<close> parses (when it does not, the calorie scan reads the whole
  response). In the second case nothing lies between the two occurrences, and the
  structured parse fails whatever the text is: \<open>handleTextAnalyze\<close> gives the default
  macro object and \<open>handleAnalyze\<close> what the calorie scan gives.
\<close>

theorem repeated_sentinel_first_two_segments:
  assumes "fullText = a @ sentinel @ r" and "count_occ sentinel (a @ butlast sentinel) = 0"
  shows "summary_of (parse_output fullText) = trim a
       \<and> summary_of (parse_output_text fullText) = trim a
       \<and> (2 \<le> count_occ sentinel fullText \<longrightarrow>
            (\<exists>d. 0 < d \<and> d < length sentinel \<and> starts_with sentinel (drop d (sentinel @ r)))
          \<or> (\<exists>b c. r = b @ sentinel @ c \<and> count_occ sentinel (b @ butlast sentinel) = 0))
       \<and> (\<forall>b c. r = b @ sentinel @ c \<and> count_occ sentinel (b @ butlast sentinel) = 0 \<longrightarrow>
              (\<forall>v. JSON_parse (strip_fences b) = Some v \<longrightarrow>
                 macros_of (parse_output fullText) = v \<and> macros_of (parse_output_text fullText) = v)
            \<and> (\<forall>v. JSON_parse (trim (strip_fences b)) = Some v \<longrightarrow>
                 macros_of (parse_output fullText) = v \<and> macros_of (parse_output_text fullText) = v)
            \<and> count_occ fence (strip_fences b) = 0
            \<and> (\<forall>v. 96 \<notin> set b \<and> JSON_parse b = Some v \<longrightarrow>
                 macros_of (parse_output fullText) = v \<and> macros_of (parse_output_text fullText) = v)
            \<and> (\<forall>x y z v. b = x @ fence @ js ''json'' @ y @ fence @ z \<and> 96 \<notin> set (x @ y @ z)
                 \<and> \<not> starts_with (js ''json'') z \<and> JSON_parse (x @ y @ z) = Some v \<longrightarrow>
                 macros_of (parse_output fullText) = v \<and> macros_of (parse_output_text fullText) = v)
            \<and> (\<forall>x y z v. b = x @ fence @ y @ fence @ z \<and> 96 \<notin> set (x @ y @ z)
                 \<and> \<not> starts_with (js ''json'') y \<and> \<not> starts_with (js ''json'') z
                 \<and> JSON_parse (x @ y @ z) = Some v \<longrightarrow>
                 macros_of (parse_output fullText) = v \<and> macros_of (parse_output_text fullText) = v)
            \<and> (\<forall>c'. parse_output_text fullText = parse_output_text (a @ sentinel @ b @ sentinel @ c'))
            \<and> (JSON_parse (trim (strip_fences b)) \<noteq> None \<longrightarrow>
                 (\<forall>c'. parse_output fullText = parse_output (a @ sentinel @ b @ sentinel @ c'))))
       \<and> (\<forall>d. 0 < d \<and> d < length sentinel \<and> starts_with sentinel (drop d (sentinel @ r)) \<longrightarrow>
              parse_output_text fullText
                = \<lparr>summary_of = trim a, macros_of = default_macros, logged = [js ''JSON Parse Error'']\<rparr>
            \<and> parse_output fullText
                = \<lparr>summary_of = trim a,
                   macros_of =
                     (case calories_match fullText of
                        Some ds \<Rightarrow> set_prop default_macros (js ''calories'') (JNum (parseInt ds))
                      | None \<Rightarrow> default_macros),
                   logged = [js ''JSON Parse Error'']\<rparr>)"
proof (intro conjI)
  show "summary_of (parse_output fullText) = trim a"
    unfolding assms(1) by (rule summary_at_first(1) [OF assms(2)])
  show "summary_of (parse_output_text fullText) = trim a"
    unfolding assms(1) by (rule summary_at_first(2) [OF assms(2)])
  show "2 \<le> count_occ sentinel fullText \<longrightarrow>
            (\<exists>d. 0 < d \<and> d < length sentinel \<and> starts_with sentinel (drop d (sentinel @ r)))
          \<or> (\<exists>b c. r = b @ sentinel @ c \<and> count_occ sentinel (b @ butlast sentinel) = 0)"
    unfolding assms(1) by (rule impI) (rule second_occurrence [OF sentinel_nonempty assms(2)])
  show "\<forall>b c. r = b @ sentinel @ c \<and> count_occ sentinel (b @ butlast sentinel) = 0 \<longrightarrow>
              (\<forall>v. JSON_parse (strip_fences b) = Some v \<longrightarrow>
                 macros_of (parse_output fullText) = v \<and> macros_of (parse_output_text fullText) = v)
            \<and> (\<forall>v. JSON_parse (trim (strip_fences b)) = Some v \<longrightarrow>
                 macros_of (parse_output fullText) = v \<and> macros_of (parse_output_text fullText) = v)
            \<and> count_occ fence (strip_fences b) = 0
            \<and> (\<forall>v. 96 \<notin> set b \<and> JSON_parse b = Some v \<longrightarrow>
                 macros_of (parse_output fullText) = v \<and> macros_of (parse_output_text fullText) = v)
            \<and> (\<forall>x y z v. b = x @ fence @ js ''json'' @ y @ fence @ z \<and> 96 \<notin> set (x @ y @ z)
                 \<and> \<not> starts_with (js ''json'') z \<and> JSON_parse (x @ y @ z) = Some v \<longrightarrow>
                 macros_of (parse_output fullText) = v \<and> macros_of (parse_output_text fullText) = v)
            \<and> (\<forall>x y z v. b = x @ fence @ y @ fence @ z \<and> 96 \<notin> set (x @ y @ z)
                 \<and> \<not> starts_with (js ''json'') y \<and> \<not> starts_with (js ''json'') z
                 \<and> JSON_parse (x @ y @ z) = Some v \<longrightarrow>
                 macros_of (parse_output fullText) = v \<and> macros_of (parse_output_text fullText) = v)
            \<and> (\<forall>c'. parse_output_text fullText = parse_output_text (a @ sentinel @ b @ sentinel @ c'))
            \<and> (JSON_parse (trim (strip_fences b)) \<noteq> None \<longrightarrow>
                 (\<forall>c'. parse_output fullText = parse_output (a @ sentinel @ b @ sentinel @ c')))"
  proof (rule allI, rule allI, rule impI, elim conjE)
    fix b c
    assume r: "r = b @ sentinel @ c" and z: "count_occ sentinel (b @ butlast sentinel) = 0"
    have f: "fullText = a @ sentinel @ b @ sentinel @ c" by (simp add: assms(1) r)
    have sp: "split_on sentinel fullText = a # b # split_on sentinel c"
      unfolding f by (rule split_on_two [OF assms(2) z])
    note M = macros_clauses [OF sp]
    have t1: "\<forall>c'. parse_output_text fullText = parse_output_text (a @ sentinel @ b @ sentinel @ c')"
      unfolding f by (rule allI) (rule tail_ignored(1) [OF assms(2) z])
    have t2: "JSON_parse (trim (strip_fences b)) \<noteq> None \<longrightarrow>
                 (\<forall>c'. parse_output fullText = parse_output (a @ sentinel @ b @ sentinel @ c'))"
      unfolding f by (intro impI allI) (erule tail_ignored(2) [OF assms(2) z])
    show "(\<forall>v. JSON_parse (strip_fences b) = Some v \<longrightarrow>
                 macros_of (parse_output fullText) = v \<and> macros_of (parse_output_text fullText) = v)
            \<and> (\<forall>v. JSON_parse (trim (strip_fences b)) = Some v \<longrightarrow>
                 macros_of (parse_output fullText) = v \<and> macros_of (parse_output_text fullText) = v)
            \<and> count_occ fence (strip_fences b) = 0
            \<and> (\<forall>v. 96 \<notin> set b \<and> JSON_parse b = Some v \<longrightarrow>
                 macros_of (parse_output fullText) = v \<and> macros_of (parse_output_text fullText) = v)
            \<and> (\<forall>x y z v. b = x @ fence @ js ''json'' @ y @ fence @ z \<and> 96 \<notin> set (x @ y @ z)
                 \<and> \<not> starts_with (js ''json'') z \<and> JSON_parse (x @ y @ z) = Some v \<longrightarrow>
                 macros_of (parse_output fullText) = v \<and> macros_of (parse_output_text fullText) = v)
            \<and> (\<forall>x y z v. b = x @ fence @ y @ fence @ z \<and> 96 \<notin> set (x @ y @ z)
                 \<and> \<not> starts_with (js ''json'') y \<and> \<not> starts_with (js ''json'') z
                 \<and> JSON_parse (x @ y @ z) = Some v \<longrightarrow>
                 macros_of (parse_output fullText) = v \<and> macros_of (parse_output_text fullText) = v)
            \<and> (\<forall>c'. parse_output_text fullText = parse_output_text (a @ sentinel @ b @ sentinel @ c'))
            \<and> (JSON_parse (trim (strip_fences b)) \<noteq> None \<longrightarrow>
                 (\<forall>c'. parse_output fullText = parse_output (a @ sentinel @ b @ sentinel @ c')))"
      by (rule conjI [OF M(1) conjI [OF M(2) conjI [OF M(3) conjI [OF M(4) conjI [OF M(5)
            conjI [OF M(6) conjI [OF t1 t2]]]]]]])
  qed
  show "\<forall>d. 0 < d \<and> d < length sentinel \<and> starts_with sentinel (drop d (sentinel @ r)) \<longrightarrow>
              parse_output_text fullText
                = \<lparr>summary_of = trim a, macros_of = default_macros, logged = [js ''JSON Parse Error'']\<rparr>
            \<and> parse_output fullText
                = \<lparr>summary_of = trim a,
                   macros_of =
                     (case calories_match fullText of
                        Some ds \<Rightarrow> set_prop default_macros (js ''calories'') (JNum (parseInt ds))
                      | None \<Rightarrow> default_macros),
                   logged = [js ''JSON Parse Error'']\<rparr>"
  proof (rule allI, rule impI, elim conjE)
    fix d
    assume d: "0 < d" "d < length sentinel" "starts_with sentinel (drop d (sentinel @ r))"
    show "parse_output_text fullText
                = \<lparr>summary_of = trim a, macros_of = default_macros, logged = [js ''JSON Parse Error'']\<rparr>
            \<and> parse_output fullText
                = \<lparr>summary_of = trim a,
                   macros_of =
                     (case calories_match fullText of
                        Some ds \<Rightarrow> set_prop default_macros (js ''calories'') (JNum (parseInt ds))
                      | None \<Rightarrow> default_macros),
                   logged = [js ''JSON Parse Error'']\<rparr>"
      unfolding assms(1)
      by (rule conjI [OF overlap_parse(1) [OF assms(2) d] overlap_parse(2) [OF assms(2) d]])
  qed
qed

theorem repeated_sentinel_first_two_segments_witness:
  \<open>count_occ sentinel (js ''Rice. '' @ butlast sentinel) = 0
   \<and> count_occ sentinel
        ((fence @ js ''json'' @ js ''{"calories":130,"protein":2,"fat":0,"carbs":28}'' @ fence)
           @ butlast sentinel) = 0
   \<and> count_occ sentinel
        (js ''Rice. '' @ sentinel
           @ (fence @ js ''json'' @ js ''{"calories":130,"protein":2,"fat":0,"carbs":28}'' @ fence)
           @ sentinel @ js ''{"calories":999,"protein":9,"fat":9,"carbs":9}'') = 2
   \<and> count_occ fence
        (fence @ js ''json'' @ js ''{"calories":130,"protein":2,"fat":0,"carbs":28}'' @ fence) = 2
   \<and> summary_of (parse_output
        (js ''Rice. '' @ sentinel
           @ (fence @ js ''json'' @ js ''{"calories":130,"protein":2,"fat":0,"carbs":28}'' @ fence)
           @ sentinel @ js ''{"calories":999,"protein":9,"fat":9,"carbs":9}'')) = js ''Rice.''
   \<and> macros_of (parse_output
        (js ''Rice. '' @ sentinel
           @ (fence @ js ''json'' @ js ''{"calories":130,"protein":2,"fat":0,"carbs":28}'' @ fence)
           @ sentinel @ js ''{"calories":999,"protein":9,"fat":9,"carbs":9}''))
       = JObj [(js ''calories'', JNum 130), (js ''protein'', JNum 2), (js ''fat'', JNum 0), (js ''carbs'', JNum 28)]
   \<and> macros_of (parse_output_text
        (js ''Rice. '' @ sentinel
           @ (fence @ js ''json'' @ js ''{"calories":130,"protein":2,"fat":0,"carbs":28}'' @ fence)
           @ sentinel @ js ''{"calories":999,"protein":9,"fat":9,"carbs":9}''))
       = JObj [(js ''calories'', JNum 130), (js ''protein'', JNum 2), (js ''fat'', JNum 0), (js ''carbs'', JNum 28)]
   \<and> count_occ sentinel (js ''X'' @ butlast sentinel) = 0
   \<and> count_occ sentinel (js ''X'' @ sentinel @ js ''JSON---{}'') = 2
   \<and> js ''X'' @ sentinel @ js ''JSON---{}'' = js ''X---JSON---JSON---{}''
   \<and> starts_with sentinel (drop 7 (sentinel @ js ''JSON---{}''))
   \<and> parse_output_text (js ''X'' @ sentinel @ js ''JSON---{}'')
       = \<lparr>summary_of = js ''X'', macros_of = default_macros, logged = [js ''JSON Parse Error'']\<rparr>
   \<and> parse_output (js ''X'' @ sentinel @ js ''JSON---{}'')
       = \<lparr>summary_of = js ''X'', macros_of = default_macros, logged = [js ''JSON Parse Error'']\<rparr>\<close>
proof -
  let ?a = \<open>js ''Rice. ''\<close>
  let ?b = \<open>fence @ js ''json'' @ js ''{"calories":130,"protein":2,"fat":0,"carbs":28}'' @ fence\<close>
  let ?c = \<open>js ''{"calories":999,"protein":9,"fat":9,"carbs":9}''\<close>
  let ?r = "?b @ sentinel @ ?c"
  let ?t = "?a @ sentinel @ ?r"
  let ?v = \<open>JObj [(js ''calories'', JNum 130), (js ''protein'', JNum 2), (js ''fat'', JNum 0), (js ''carbs'', JNum 28)]\<close>
  let ?u = "js ''X'' @ sentinel @ js ''JSON---{}''"
  have h1: "count_occ sentinel (?a @ butlast sentinel) = 0" by code_simp
  have h2: "count_occ sentinel (?b @ butlast sentinel) = 0" by code_simp
  have n: "count_occ sentinel ?t = 2" by code_simp
  have f: "count_occ fence ?b = 2" by code_simp
  have j: "JSON_parse (strip_fences ?b) = Some ?v" by code_simp
  have t: "trim ?a = js ''Rice.''" by (simp add: trim_def is_ws_def js_def)
  note T = repeated_sentinel_first_two_segments [OF refl h1, of ?r]
  from T have s: "summary_of (parse_output ?t) = trim ?a" by (rule conjunct1)
  note C = T [THEN conjunct2, THEN conjunct2, THEN conjunct2, THEN conjunct1, rule_format,
      of ?b ?c, OF conjI [OF refl h2]]
  note m = C [THEN conjunct1, rule_format, OF j]
  have g1: "count_occ sentinel (js ''X'' @ butlast sentinel) = 0" by code_simp
  have g2: "count_occ sentinel ?u = 2" by code_simp
  have g3: "?u = js ''X---JSON---JSON---{}''" by (simp add: js_def sentinel_def)
  have d: "0 < (7::nat)" "7 < length sentinel" "starts_with sentinel (drop 7 (sentinel @ js ''JSON---{}''))"
    by (simp_all add: sentinel_def js_def)
  have tx: "trim (js ''X'') = js ''X''" by (simp add: trim_def is_ws_def js_def)
  have cm: "calories_match ?u = None"
    by (simp add: g3) (simp add: js_def calories_match_at_def lower_def)
  note U = repeated_sentinel_first_two_segments [OF refl g1, of "js ''JSON---{}''"]
  note o = U [THEN conjunct2, THEN conjunct2, THEN conjunct2, THEN conjunct2, rule_format,
      OF conjI [OF d(1) conjI [OF d(2) d(3)]], unfolded tx cm option.case]
  from h1 h2 n f s [unfolded t] m g1 g2 g3 d(3) o show ?thesis
    by (intro conjI) (elim conjE, assumption)+
qed

text \<open>
  C2. The claim: for every response that has the sentinel but no parsable JSON after it,
  the macros are all 0 except calories, which is the integer the scan for the
  \<open>Calories\<close> label finds in the response, else 0. \<open>handleAnalyze\<close> does this
  (\<open>parse_output_fallback\<close>); \<open>handleTextAnalyze\<close> has no scan. On the response below,
  whose JSON does not parse and which holds the label with 105, \<open>handleAnalyze\<close> gives
  calories 105 and \<open>handleTextAnalyze\<close> gives calories 0.
\<close>

theorem text_path_skips_calorie_scan:
  \<open>split_on sentinel (js ''Calories: 105\<newline>---JSON---\<newline>not json'')
     = [js ''Calories: 105\<newline>'', js ''\<newline>not json'']
   \<and> JSON_parse (trim (strip_fences (js ''\<newline>not json''))) = None
   \<and> calories_match (js ''Calories: 105\<newline>---JSON---\<newline>not json'') = Some (js ''105'')
   \<and> macro_set (macros_of (parse_output (js ''Calories: 105\<newline>---JSON---\<newline>not json'')))
       = [Inr (JNum 105), Inr (JNum 0), Inr (JNum 0), Inr (JNum 0)]
   \<and> macro_set (macros_of (parse_output_text (js ''Calories: 105\<newline>---JSON---\<newline>not json'')))
       = [Inr (JNum 0), Inr (JNum 0), Inr (JNum 0), Inr (JNum 0)]\<close>
proof -
  let ?t = \<open>js ''Calories: 105\<newline>---JSON---\<newline>not json''\<close>
  have sp: "split_on sentinel ?t = [js ''Calories: 105\<newline>'', js ''\<newline>not json'']"
    by code_simp
  have tr: "trim (strip_fences (js ''\<newline>not json'')) = js ''not json''"
    by (simp add: trim_def is_ws_def js_def fence_def)
  have j: "JSON_parse (trim (strip_fences (js ''\<newline>not json''))) = None"
    unfolding tr by code_simp
  have m: "calories_match ?t = Some (js ''105'')"
    by (simp add: calories_match_at_def Let_def is_ws_def is_digit_def lower_def js_def)
  have p: "parseInt (js ''105'') = 105"
    unfolding parseInt_def digits_val_def js_def by simp
  have a: "macro_set (macros_of (parse_output ?t)) = [Inr (JNum 105), Inr (JNum 0), Inr (JNum 0), Inr (JNum 0)]"
    unfolding parse_output_fallback(1) [OF sp j] m option.case p
    by (simp add: macro_set_def macro_keys_def default_macros_def js_def)
  have b: "macro_set (macros_of (parse_output_text ?t)) = [Inr (JNum 0), Inr (JNum 0), Inr (JNum 0), Inr (JNum 0)]"
    unfolding parse_output_fallback(2) [OF sp j] by (rule macro_set_default)
  from sp j m a b show ?thesis by (simp only:)
qed

text \<open>
  C4, as it holds. When the sentinel is missing from the response, or what follows it
  does not parse as JSON, each of the four macro fields of either handler's macro object
  is a non-negative number: the fields of the default object are 0, and the calorie
  count the scan recovers is a number written in digits. When the JSON parses, the
  macro object is the value \<open>JSON.parse\<close> returned, whatever it holds.
\<close>

theorem fallback_macros_nonneg:
  "(count_occ sentinel fullText = 0
      \<or> JSON_parse (trim (strip_fences (split_on sentinel fullText ! 1))) = None \<longrightarrow>
        nonneg_macros (macros_of (parse_output fullText))
      \<and> nonneg_macros (macros_of (parse_output_text fullText)))
   \<and> (\<forall>v. 1 < length (split_on sentinel fullText)
          \<and> JSON_parse (trim (strip_fences (split_on sentinel fullText ! 1))) = Some v \<longrightarrow>
        macros_of (parse_output fullText) = v \<and> macros_of (parse_output_text fullText) = v)"
proof (cases "1 < length (split_on sentinel fullText)")
  case False
  then show ?thesis
    by (simp add: parse_output_def parse_output_text_def Let_def nonneg_default)
next
  case True
  have "count_occ sentinel fullText \<noteq> 0"
  proof
    assume "count_occ sentinel fullText = 0"
    then have "split_on sentinel fullText = [fullText]"
      by (rule split_on_no_occ [OF sentinel_nonempty])
    with True show False by simp
  qed
  with True show ?thesis
    by (auto simp: parse_output_def parse_output_text_def Let_def nonneg_default nonneg_recovered
        split: option.split)
qed

theorem fallback_macros_nonneg_witness:
  \<open>JSON_parse (trim (strip_fences (split_on sentinel (js ''Stew, calories 250.---JSON--- {oops'') ! 1))) = None
   \<and> nonneg_macros (macros_of (parse_output (js ''Stew, calories 250.---JSON--- {oops'')))
   \<and> nonneg_macros (macros_of (parse_output_text (js ''Stew, calories 250.---JSON--- {oops'')))
   \<and> 1 < length (split_on sentinel demo_text)
   \<and> JSON_parse (trim (strip_fences (split_on sentinel demo_text ! 1))) = Some demo_macros
   \<and> macros_of (parse_output demo_text) = demo_macros
   \<and> macros_of (parse_output_text demo_text) = demo_macros\<close>
proof -
  let ?t = \<open>js ''Stew, calories 250.---JSON--- {oops''\<close>
  have sp: "split_on sentinel ?t = [js ''Stew, calories 250.'', js '' {oops'']"
    by code_simp
  have tr: "trim (strip_fences (js '' {oops'')) = js ''{oops''"
    by (simp add: trim_def is_ws_def js_def fence_def)
  have j: "JSON_parse (trim (strip_fences (split_on sentinel ?t ! 1))) = None"
    unfolding sp by (simp add: tr) code_simp
  have l: "1 < length (split_on sentinel demo_text)"
    by (simp add: demo_split)
  have k: "JSON_parse (trim (strip_fences (split_on sentinel demo_text ! 1))) = Some demo_macros"
    by (simp add: demo_split demo_json)
  from fallback_macros_nonneg [of ?t] j
  have a: "nonneg_macros (macros_of (parse_output ?t)) \<and> nonneg_macros (macros_of (parse_output_text ?t))"
    by blast
  from fallback_macros_nonneg [of demo_text] l k
  have b: "macros_of (parse_output demo_text) = demo_macros \<and> macros_of (parse_output_text demo_text) = demo_macros"
    by blast
  from j a l k b show ?thesis by (simp only:)
qed

text \<open>
  C4 as claimed, that in every record an analysis produces each of the four macro fields
  is a non-negative number, fails on a response whose JSON has calories -5.
\<close>

theorem negative_calories_counterexample:
  \<open>\<not> nonneg_macros (macros_of (parse_output
       (js ''Soup.---JSON---{"calories":-5,"protein":1,"fat":0,"carbs":27}'')))\<close>
proof -
  let ?t = \<open>js ''Soup.---JSON---{"calories":-5,"protein":1,"fat":0,"carbs":27}''\<close>
  let ?b = \<open>js ''{"calories":-5,"protein":1,"fat":0,"carbs":27}''\<close>
  have sp: "split_on sentinel ?t = [js ''Soup.'', ?b]"
    by code_simp
  have tr: "trim (strip_fences ?b) = ?b"
    by (simp add: trim_def is_ws_def js_def fence_def)
  have j: "JSON_parse (trim (strip_fences ?b)) =
      Some (JObj [(js ''calories'', JNum (- 5)), (js ''protein'', JNum 1), (js ''fat'', JNum 0), (js ''carbs'', JNum 27)])"
    unfolding tr by code_simp
  have "macros_of (parse_output ?t) =
      JObj [(js ''calories'', JNum (- 5)), (js ''protein'', JNum 1), (js ''fat'', JNum 0), (js ''carbs'', JNum 27)]"
    by (simp add: parse_output_two [OF sp] j)
  then show ?thesis
    by (simp add: nonneg_macros_def macro_set_def macro_keys_def js_def)
qed

text \<open>
  C5. The claim: for every analysis that completes, from an image or from a free-text
  query, the record is inserted into the remote store, once. \<open>handleAnalyze\<close> does this
  (\<open>handleAnalyze_inserts_once\<close>); \<open>handleTextAnalyze\<close> never touches the store
  (\<open>handleTextAnalyze_never_stores\<close>). In the example run the text query \<open>banana\<close>
  completes, its record is displayed, and the only event is the request to the AI
  service: nothing is inserted and the table stays empty, where \<open>handleAnalyze\<close> on the
  same response inserts the row.
\<close>

theorem text_analysis_is_never_inserted:
  "result (ui (handleTextAnalyze (demo_env None) demo_world))
     = Some \<lparr>id_r = None, name = js ''banana'', summary = js ''A sweet tropical fruit...'',
             macros = demo_macros, imageUrl = None, timestamp = None, sources = Some []\<rparr>
   \<and> run_events demo_world (handleTextAnalyze (demo_env None) demo_world)
       = [AiRequest (analysis_request (text_prompt (js ''banana'')))]
   \<and> table (handleTextAnalyze (demo_env None) demo_world) = []
   \<and> filter is_insert (run_events demo_world (handleAnalyze (demo_env None) demo_world))
       = [StoreInsert demo_row]"
  by (simp add: demo_handleTextAnalyze demo_handleAnalyze persist_events_facts)

text \<open>
  C6. In a run of \<open>handleAnalyze\<close> whose insert of the row \<open>r\<close> fails: no alert is
  raised, the error is logged, no select is issued, the displayed result is the freshly
  computed record (it shows \<open>r\<close>), and the history list and the table are as they were.
  And in any run, a select is issued only after an insert that succeeded.
\<close>

theorem insert_failure_is_only_logged:
  "(\<forall>r. StoreInsert r \<in> set (run_events w (handleAnalyze e w)) \<and> insert_error e r \<noteq> None \<longrightarrow>
       filter is_alert (run_events w (handleAnalyze e w)) = []
     \<and> ConsoleError (js ''Supabase Save Error:'') \<in> set (run_events w (handleAnalyze e w))
     \<and> filter is_select (run_events w (handleAnalyze e w)) = []
     \<and> (\<exists>x. result (ui (handleAnalyze e w)) = Some x \<and> shows_row x r)
     \<and> history (ui (handleAnalyze e w)) = history (ui w)
     \<and> table (handleAnalyze e w) = table w)
   \<and> (\<forall>q. StoreSelect q \<in> set (run_events w (handleAnalyze e w)) \<longrightarrow>
       (\<exists>r. StoreInsert r \<in> set (run_events w (handleAnalyze e w)) \<and> insert_error e r = None))"
proof (cases "file_s (ui w) = None \<or> imagePreview (ui w) = None \<or> imagePreview (ui w) = Some []")
  case True
  then show ?thesis by (simp add: handleAnalyze_guard run_events_self)
next
  case False
  then obtain f preview where "file_s (ui w) = Some f" "imagePreview (ui w) = Some preview" "preview \<noteq> []"
    by auto
  from handleAnalyze_shape [OF this, of e] obtain pre where q: "list_all quiet pre" and
    c: "(run_events w (handleAnalyze e w) = pre @ analyze_alert
               \<and> table (handleAnalyze e w) = table w
               \<and> history (ui (handleAnalyze e w)) = history (ui w))
            \<or> (\<exists>r x. run_events w (handleAnalyze e w) = pre @ persist_events e r
                 \<and> result (ui (handleAnalyze e w)) = Some x \<and> shows_row x r
                 \<and> (if insert_error e r = None
                     then table (handleAnalyze e w) = table w @ [stored_as (new_id e) (now e) r]
                     else table (handleAnalyze e w) = table w
                          \<and> history (ui (handleAnalyze e w)) = history (ui w)))"
    by blast
  from c show ?thesis
  proof
    assume "run_events w (handleAnalyze e w) = pre @ analyze_alert
               \<and> table (handleAnalyze e w) = table w
               \<and> history (ui (handleAnalyze e w)) = history (ui w)"
    then show ?thesis
      using quiet_no_store(1,2) [OF q] analyze_alert_no_store by simp
  next
    assume "\<exists>r x. run_events w (handleAnalyze e w) = pre @ persist_events e r
                 \<and> result (ui (handleAnalyze e w)) = Some x \<and> shows_row x r
                 \<and> (if insert_error e r = None
                     then table (handleAnalyze e w) = table w @ [stored_as (new_id e) (now e) r]
                     else table (handleAnalyze e w) = table w
                          \<and> history (ui (handleAnalyze e w)) = history (ui w))"
    then obtain r0 x where ev: "run_events w (handleAnalyze e w) = pre @ persist_events e r0"
      and res: "result (ui (handleAnalyze e w)) = Some x" "shows_row x r0"
      and st0: "if insert_error e r0 = None
                then table (handleAnalyze e w) = table w @ [stored_as (new_id e) (now e) r0]
                else table (handleAnalyze e w) = table w
                     \<and> history (ui (handleAnalyze e w)) = history (ui w)"
      by blast
    have st: "insert_error e r0 \<noteq> None \<Longrightarrow> table (handleAnalyze e w) = table w
                          \<and> history (ui (handleAnalyze e w)) = history (ui w)"
      using st0 by (simp split: if_splits)
    have a: "filter is_alert (run_events w (handleAnalyze e w)) = []"
      by (simp add: ev quiet_no_store [OF q] persist_events_facts)
    have i: "StoreInsert r \<in> set (run_events w (handleAnalyze e w)) \<longleftrightarrow> r = r0" for r
      by (simp add: ev quiet_no_store [OF q] persist_events_facts)
    have s: "StoreSelect s \<in> set (run_events w (handleAnalyze e w)) \<longleftrightarrow>
               s = history_query \<and> insert_error e r0 = None" for s
      by (simp add: ev quiet_no_store [OF q] persist_events_facts)
    have f: "insert_error e r0 \<noteq> None \<Longrightarrow>
        ConsoleError (js ''Supabase Save Error:'') \<in> set (run_events w (handleAnalyze e w))
        \<and> filter is_select (run_events w (handleAnalyze e w)) = []"
      by (simp add: ev quiet_no_store [OF q] persist_events_facts)
    from a i s f res st show ?thesis by auto
  qed
qed

theorem insert_failure_is_only_logged_witness:
  "StoreInsert demo_row
     \<in> set (run_events demo_world (handleAnalyze (demo_env (Some (js ''insert failed''))) demo_world))
   \<and> insert_error (demo_env (Some (js ''insert failed''))) demo_row \<noteq> None
   \<and> filter is_alert (run_events demo_world (handleAnalyze (demo_env (Some (js ''insert failed''))) demo_world)) = []
   \<and> ConsoleError (js ''Supabase Save Error:'')
       \<in> set (run_events demo_world (handleAnalyze (demo_env (Some (js ''insert failed''))) demo_world))
   \<and> filter is_select (run_events demo_world (handleAnalyze (demo_env (Some (js ''insert failed''))) demo_world)) = []
   \<and> (\<exists>x. result (ui (handleAnalyze (demo_env (Some (js ''insert failed''))) demo_world)) = Some x
          \<and> shows_row x demo_row)
   \<and> history (ui (handleAnalyze (demo_env (Some (js ''insert failed''))) demo_world)) = history (ui demo_world)
   \<and> table (handleAnalyze (demo_env (Some (js ''insert failed''))) demo_world) = table demo_world
   \<and> StoreSelect history_query \<in> set (run_events demo_world (handleAnalyze (demo_env None) demo_world))
   \<and> (\<exists>r. StoreInsert r \<in> set (run_events demo_world (handleAnalyze (demo_env None) demo_world))
          \<and> insert_error (demo_env None) r = None)"
proof -
  let ?e = "demo_env (Some (js ''insert failed''))"
  have h1: "StoreInsert demo_row \<in> set (run_events demo_world (handleAnalyze ?e demo_world))"
    by (simp add: demo_handleAnalyze persist_events_def)
  have h2: "insert_error ?e demo_row \<noteq> None"
    by (simp add: demo_store)
  have h3: "StoreSelect history_query \<in> set (run_events demo_world (handleAnalyze (demo_env None) demo_world))"
    by (simp add: demo_handleAnalyze persist_events_def demo_store)
  from insert_failure_is_only_logged [of demo_world ?e] h1 h2
  have a: "filter is_alert (run_events demo_world (handleAnalyze ?e demo_world)) = []
     \<and> ConsoleError (js ''Supabase Save Error:'') \<in> set (run_events demo_world (handleAnalyze ?e demo_world))
     \<and> filter is_select (run_events demo_world (handleAnalyze ?e demo_world)) = []
     \<and> (\<exists>x. result (ui (handleAnalyze ?e demo_world)) = Some x \<and> shows_row x demo_row)
     \<and> history (ui (handleAnalyze ?e demo_world)) = history (ui demo_world)
     \<and> table (handleAnalyze ?e demo_world) = table demo_world"
    by blast
  from insert_failure_is_only_logged [of demo_world "demo_env None"] h3
  have b: "\<exists>r. StoreInsert r \<in> set (run_events demo_world (handleAnalyze (demo_env None) demo_world))
          \<and> insert_error (demo_env None) r = None"
    by blast
  from h1 h2 h3 a b show ?thesis by blast
qed

text \<open>
  C7. The query of \<open>loadHistory\<close> orders by \<open>created_at\<close> descending with limit 20, and
  it is the one request the function makes. When the select succeeds, the history list
  is the rows it returned, mapped one by one: at most 20 records, every one with its
  creation time, ordered by creation time newest first (each no older than the next;
  each strictly newer than the next when no two rows of the table share a creation
  time).
\<close>

theorem history_at_most_20_newest_first:
  assumes "select_error e = None"
  shows "limit_n history_query = 20 \<and> \<not> ascending history_query
       \<and> order_by history_query = js ''created_at''
       \<and> trace (loadHistory e w) = trace w @ [StoreSelect history_query]
       \<and> history (ui (loadHistory e w)) = map from_row (run_select history_query (table w))
       \<and> set (run_select history_query (table w)) \<subseteq> set (table w)
       \<and> length (history (ui (loadHistory e w))) \<le> 20
       \<and> list_all (\<lambda>x. timestamp x \<noteq> None) (history (ui (loadHistory e w)))
       \<and> sorted_wrt (\<lambda>x y. the (timestamp y) \<le> the (timestamp x)) (history (ui (loadHistory e w)))
       \<and> (distinct (map created_at (table w)) \<longrightarrow>
            sorted_wrt (\<lambda>x y. the (timestamp y) < the (timestamp x)) (history (ui (loadHistory e w))))"
proof -
  have h: "history (ui (loadHistory e w)) = map from_row (run_select history_query (table w))"
    using assms by (simp add: loadHistory_history)
  have q: "limit_n history_query = 20 \<and> \<not> ascending history_query
       \<and> order_by history_query = js ''created_at''"
    by (simp add: history_query_def)
  have t: "trace (loadHistory e w) = trace w @ [StoreSelect history_query]"
    using assms by (simp add: loadHistory_trace)
  have l: "length (history (ui (loadHistory e w))) \<le> 20"
    unfolding h using run_select_length [of "table w"] by simp
  have a: "list_all (\<lambda>x. timestamp x \<noteq> None) (history (ui (loadHistory e w)))"
    unfolding h by (simp add: list_all_iff timestamp_from_row)
  have s: "sorted_wrt (\<lambda>x y. the (timestamp y) \<le> the (timestamp x)) (history (ui (loadHistory e w)))"
    unfolding h using run_select_newest_first [of "table w"]
    by (simp add: sorted_wrt_map timestamp_from_row)
  have d: "sorted_wrt (\<lambda>x y. the (timestamp y) < the (timestamp x)) (history (ui (loadHistory e w)))"
    if "distinct (map created_at (table w))"
    unfolding h using run_select_strict [OF that]
    by (simp add: sorted_wrt_map timestamp_from_row)
  from q t h run_select_subset [of "table w"] l a s d show ?thesis by blast
qed

theorem history_at_most_20_newest_first_witness:
  "select_error (demo_env None) = None
   \<and> distinct (map created_at (table (demo_world\<lparr>table := demo_table\<rparr>)))
   \<and> length (history (ui (loadHistory (demo_env None) (demo_world\<lparr>table := demo_table\<rparr>)))) \<le> 20
   \<and> sorted_wrt (\<lambda>x y. the (timestamp y) < the (timestamp x))
        (history (ui (loadHistory (demo_env None) (demo_world\<lparr>table := demo_table\<rparr>))))
   \<and> map timestamp (history (ui (loadHistory (demo_env None) (demo_world\<lparr>table := demo_table\<rparr>))))
        = [Some 9, Some 7, Some 5]"
proof -
  have h1: "select_error (demo_env None) = None" by (simp add: demo_store)
  have h2: "distinct (map created_at (table (demo_world\<lparr>table := demo_table\<rparr>)))"
    by (simp add: demo_table_def stored_as_def)
  have ev: "run_select history_query demo_table
      = [stored_as 2 9 demo_row, stored_as 3 7 demo_row, stored_as 1 5 demo_row]"
    by (simp add: run_select_history demo_table_def stored_as_def)
  from history_at_most_20_newest_first [OF h1, of "demo_world\<lparr>table := demo_table\<rparr>"] h2
  have a: "length (history (ui (loadHistory (demo_env None) (demo_world\<lparr>table := demo_table\<rparr>)))) \<le> 20"
    and b: "sorted_wrt (\<lambda>x y. the (timestamp y) < the (timestamp x))
        (history (ui (loadHistory (demo_env None) (demo_world\<lparr>table := demo_table\<rparr>))))"
    and c: "history (ui (loadHistory (demo_env None) (demo_world\<lparr>table := demo_table\<rparr>)))
        = map from_row (run_select history_query (table (demo_world\<lparr>table := demo_table\<rparr>)))"
    by blast+
  have d: "map timestamp (history (ui (loadHistory (demo_env None) (demo_world\<lparr>table := demo_table\<rparr>))))
        = [Some 9, Some 7, Some 5]"
    unfolding c by (simp add: ev timestamp_from_row) (simp add: stored_as_def)
  from h1 h2 a b d show ?thesis by blast
qed

text \<open>
  C8. Round trip. For every record \<open>handleAnalyze\<close> inserts (the insert object is built
  from the same food name, summary, image preview and macros as the record): the row,
  as stored with whatever id and creation time the store assigns, maps back through
  \<open>from_row\<close> to a record with the same name, summary, image reference and macro set,
  and with that id and creation time.
\<close>

theorem row_round_trip:
  assumes "history_insert foodName summ preview mac = Inr r"
  shows "name (from_row (stored_as i t r)) = name (newAnalysis foodName summ mac preview srcs)
       \<and> summary (from_row (stored_as i t r)) = summary (newAnalysis foodName summ mac preview srcs)
       \<and> imageUrl (from_row (stored_as i t r)) = imageUrl (newAnalysis foodName summ mac preview srcs)
       \<and> macro_set (macros (from_row (stored_as i t r)))
           = macro_set (macros (newAnalysis foodName summ mac preview srcs))
       \<and> id_r (from_row (stored_as i t r)) = Some i
       \<and> timestamp (from_row (stored_as i t r)) = Some t"
  using history_insert_Inr [OF assms]
  by (simp add: from_row_def stored_as_def newAnalysis_def macro_set_row)

theorem row_round_trip_witness:
  "history_insert (js ''banana'') (js ''A sweet tropical fruit...'') demo_preview demo_macros = Inr demo_row
   \<and> name (from_row (stored_as 1 10 demo_row)) = js ''banana''
   \<and> summary (from_row (stored_as 1 10 demo_row)) = js ''A sweet tropical fruit...''
   \<and> imageUrl (from_row (stored_as 1 10 demo_row)) = Some demo_preview
   \<and> macro_set (macros (from_row (stored_as 1 10 demo_row)))
       = [Inr (JNum 105), Inr (JNum 1), Inr (JNum 0), Inr (JNum 27)]"
proof -
  have m: "macro_set demo_macros = [Inr (JNum 105), Inr (JNum 1), Inr (JNum 0), Inr (JNum 27)]"
    by (simp add: demo_macros_def macro_set_row)
  from row_round_trip [OF demo_insert, of 1 10 "[]"] m demo_insert show ?thesis
    by (simp add: newAnalysis_def)
qed

text \<open>
  C9. The claim: a second analysis triggered while \<open>loading\<close> is true is rejected, and
  no request to the AI service is issued. In the example world with \<open>loading\<close> set,
  the Start Analysis button is not rendered and a click on it does nothing; but a
  click on Search, or Enter in the search input, runs \<open>handleTextAnalyze\<close>, which does
  not read \<open>loading\<close>, and the request to the AI service is issued.
\<close>

theorem search_while_loading_issues_request:
  "loading (ui (setLoading True demo_world))
   \<and> result (ui (setLoading True demo_world)) = None
   \<and> click_start_analysis (demo_env None) (setLoading True demo_world) = setLoading True demo_world
   \<and> run_events (setLoading True demo_world) (click_search (demo_env None) (setLoading True demo_world))
       = [AiRequest (analysis_request (text_prompt (js ''banana'')))]
   \<and> run_events (setLoading True demo_world)
        (press_enter_in_search (demo_env None) (setLoading True demo_world))
       = [AiRequest (analysis_request (text_prompt (js ''banana'')))]
   \<and> run_events (setLoading True demo_world)
        (handleTextAnalyze (demo_env None) (setLoading True demo_world))
       = [AiRequest (analysis_request (text_prompt (js ''banana'')))]"
  by (simp add: demo_loading click_start_analysis_loading click_search_def press_enter_in_search_def
      handleTextAnalyze_setLoading demo_handleTextAnalyze)

end
